theory Spec2Isabelle
  imports Main "HOL-Library.Word"
begin

unbundle bit_operations_syntax

section \<open>Dronetic: machine types\<close>

text \<open>
  The sketch runs on an 8-bit AVR: \<open>byte\<close> is an unsigned 8-bit value, \<open>char\<close> a signed
  8-bit value (read here with \<open>sint\<close>), \<open>word\<close> an unsigned 16-bit value and \<open>int\<close> a
  signed 16-bit value. Arithmetic on words wraps around as the hardware does.
\<close>

type_synonym byte = "8 word"
type_synonym cchar = "8 word"
type_synonym word16 = "16 word"

section \<open>DroneSynth: play status, fading and the final mix\<close>

text \<open>
  The anonymous enum of \<open>DroneSynth\<close> behind the member \<open>playStatus\<close>.
\<close>

datatype playState = STOPPED | FADE_IN | PLAYING | FADE_OUT

text \<open>
  The two members of \<open>DroneSynth\<close> that \<open>start\<close>, \<open>stop\<close> and the body of \<open>dynamics\<close>
  read and write: \<open>playStatus\<close>, declared in the sketch, and the inherited volume \<open>vol\<close>,
  compared with 255 and 0 in the sketch and therefore a byte.
\<close>

record DroneSynth =
  playStatus :: playState
  vol :: byte

text \<open>
  Modelled from the spec: \<open>setVol\<close> is inherited from the synth framework, which is not
  part of the sketch; the specification speaks of the volume being incremented and
  decremented by one, so \<open>setVol x\<close> stores \<open>x\<close> as the volume.
\<close>

definition setVol :: "byte \<Rightarrow> DroneSynth \<Rightarrow> DroneSynth" where
  "setVol x s = s\<lparr>vol := x\<rparr>"

text \<open>
  Modelled from the spec: \<open>super::dynamics()\<close> of \<open>TwoVoxPanSynth\<close> is not part of the
  sketch; it updates the voices and the pan control (envelopes, LFOs), which the
  specification treats as external collaborators, and \<open>playStatus\<close> is a member of the
  derived class only. It leaves \<open>playStatus\<close> and \<open>vol\<close> as they are.
\<close>

definition super_dynamics :: "DroneSynth \<Rightarrow> DroneSynth" where
  "super_dynamics s = s"

definition dynamics :: "DroneSynth \<Rightarrow> DroneSynth" where
  "dynamics s =
     super_dynamics
       (if playStatus s = FADE_IN then
          (if vol s = 255 then s\<lparr>playStatus := PLAYING\<rparr> else setVol (vol s + 1) s)
        else if playStatus s = FADE_OUT then
          (if vol s = 0 then s\<lparr>playStatus := STOPPED\<rparr> else setVol (vol s - 1) s)
        else s)"

definition start :: "DroneSynth \<Rightarrow> DroneSynth" where
  "start s = (if playStatus s \<noteq> PLAYING then s\<lparr>playStatus := FADE_IN\<rparr> else s)"

definition stop :: "DroneSynth \<Rightarrow> DroneSynth" where
  "stop s = (if playStatus s \<noteq> STOPPED then s\<lparr>playStatus := FADE_OUT\<rparr> else s)"

text \<open>
  The body of the mixing loop of \<open>DroneSynth::output\<close> for one channel and one buffer
  position: \<open>sum\<close> is a 16-bit \<open>int\<close> that takes the sign-extended drone sample, is
  multiplied by 3, receives the sign-extended lead sample and is shifted right by two
  (avr-gcc shifts a negative \<open>int\<close> arithmetically); the result is stored back into the
  \<open>char\<close> buffer, which keeps its low eight bits.
\<close>

definition mix :: "cchar \<Rightarrow> cchar \<Rightarrow> cchar" where
  "mix droneChannel leadChannel =
     (let sum = (scast droneChannel :: word16);
          sum = sum * 3;
          sum = sum + scast leadChannel
      in ucast (signed_drop_bit 2 sum))"

text \<open>
  \<open>DroneSynth::output\<close> after \<open>super::output(bufL, bufR)\<close> has filled the two drone
  buffers and \<open>vox[2]->output(leadbuf)\<close> the lead buffer (both calls belong to the
  framework): every position \<open>i < audioBufSz\<close> of either channel is overwritten with its
  mix with the lead buffer. The three buffers have \<open>audioBufSz\<close> entries each.
\<close>

definition output_mix :: "cchar list \<Rightarrow> cchar list \<Rightarrow> cchar list \<Rightarrow> cchar list \<times> cchar list" where
  "output_mix bufL bufR leadbuf =
     (map (\<lambda>i. mix (bufL ! i) (leadbuf ! i)) [0..<length leadbuf],
      map (\<lambda>i. mix (bufR ! i) (leadbuf ! i)) [0..<length leadbuf])"

section \<open>DroneOscSection: the quantum oscillator bank\<close>

text \<open>
  The table of precalculated oscillator periods, four octaves of twelve notes, kept in
  program memory as 16-bit words.
\<close>

definition NotePeriods :: "word16 list" where
  "NotePeriods =
     [360, 346, 320, 300, 288, 270, 256, 240, 225, 214, 200, 192,
      180, 173, 160, 150, 144, 135, 128, 120, 113, 107, 100, 96,
      90, 86, 80, 75, 72, 67, 64, 60, 56, 54, 50, 48,
      45, 43, 40, 38, 36, 34, 32, 30, 28, 27, 25, 24]"

definition MAX_OSC :: nat where
  "MAX_OSC = 4"

definition NoNote :: byte where
  "NoNote = 255"

text \<open>
  The constructor sets \<open>numNotes = 48\<close> and \<open>periods = &NotePeriods[0]\<close>; nothing else
  assigns them. Addresses in program memory are taken relative to the start of the
  table, so \<open>periods\<close> is 0.
\<close>

definition numNotes :: byte where
  "numNotes = 48"

definition periods :: word16 where
  "periods = 0"

text \<open>
  Modelled from the spec: the declaration of the union type \<open>Word\<close> belongs to the
  ArduTouch library and is not part of the sketch. The specification computes the high
  edge as the high byte of the 16-bit product of period and pulse width, which is
  \<open>posSteps._.msb\<close> in the sketch: the union overlays the 16-bit member \<open>val\<close> with its
  low byte \<open>_.lsb\<close> and its high byte \<open>_.msb\<close>.
\<close>

definition Word_msb :: "word16 \<Rightarrow> byte" where
  "Word_msb val = ucast (drop_bit 8 val)"

definition Word_lsb :: "word16 \<Rightarrow> byte" where
  "Word_lsb val = ucast val"

text \<open>
  Modelled from the spec: the macro \<open>pgm_read_word_near\<close> belongs to the AVR C library
  and is not part of the sketch. The specification has \<open>setNote\<close> look up the period of
  the wrapped note index in the table; the sketch does so by reading the 16-bit word at
  the byte address \<open>periods + 2 * index\<close> of program memory. \<open>rom\<close> is the image of the
  table in program memory, each entry as two bytes, the low byte first.
\<close>

definition rom :: "byte list" where
  "rom = concat (map (\<lambda>w. [Word_lsb w, Word_msb w]) NotePeriods)"

definition pgm_read_word_near :: "word16 \<Rightarrow> word16" where
  "pgm_read_word_near a =
     push_bit 8 (ucast (rom ! (unat a + 1))) OR ucast (rom ! unat a)"

text \<open>
  The members of a \<open>DroneOscSection\<close>. The arrays have \<open>MAX_OSC\<close> entries, the inner
  arrays of \<open>edgLen\<close> and \<open>edgVal\<close> two. The member \<open>note\<close> of the sketch is \<open>note'\<close>
  here.
\<close>

record DroneOscSection =
  numOsc :: byte
  curOsc :: byte
  ampOsc :: byte
  edgIdx :: "byte list"
  edgeDC :: "byte list"
  edgLen :: "byte list list"
  edgVal :: "cchar list list"
  note' :: "byte list"
  pW :: byte
  freeze :: bool

text \<open>Reading \<open>a[t][j]\<close> and the assignment \<open>a[t][j] = v\<close> of a two-dimensional array.\<close>

definition get2 :: "'a list list \<Rightarrow> nat \<Rightarrow> nat \<Rightarrow> 'a" where
  "get2 a t j = a ! t ! j"

definition put2 :: "'a list list \<Rightarrow> nat \<Rightarrow> nat \<Rightarrow> 'a \<Rightarrow> 'a list list" where
  "put2 a t j v = a[t := (a ! t)[j := v]]"

text \<open>
  The shape of the arrays, and the bounds that \<open>setNumOsc\<close> keeps for \<open>numOsc\<close>. Slot
  numbers are bytes in the sketch; they are array subscripts only and are natural
  numbers here. A subscript of \<open>MAX_OSC\<close> or more would write outside the arrays in the
  sketch, so every statement below is about slots \<open>t < MAX_OSC\<close> of a section of this
  shape.
\<close>

definition shaped :: "DroneOscSection \<Rightarrow> bool" where
  "shaped s \<longleftrightarrow>
     length (edgIdx s) = MAX_OSC \<and> length (edgeDC s) = MAX_OSC \<and>
     length (note' s) = MAX_OSC \<and>
     length (edgLen s) = MAX_OSC \<and> list_all (\<lambda>e. length e = 2) (edgLen s) \<and>
     length (edgVal s) = MAX_OSC \<and> list_all (\<lambda>e. length e = 2) (edgVal s) \<and>
     1 \<le> numOsc s \<and> unat (numOsc s) \<le> MAX_OSC"

definition setSteps :: "nat \<Rightarrow> byte \<Rightarrow> byte \<Rightarrow> DroneOscSection \<Rightarrow> DroneOscSection" where
  "setSteps t n0 n1 s =
     (let s = s\<lparr>edgLen := put2 (edgLen s) t 0 n0\<rparr>;
          s = s\<lparr>edgLen := put2 (edgLen s) t 1 n1\<rparr>
      in s\<lparr>edgVal := put2 (edgVal s) t 1
                         (if n0 \<noteq> 0 \<and> n1 \<noteq> 0 then - ampOsc s else ampOsc s)\<rparr>)"

text \<open>
  \<open>calcEdges\<close>: the branch for \<open>period <= 1\<close> calls \<open>setSteps(t, 0, 0)\<close> and does not
  return, so the computation below it runs for every period. \<open>posSteps.val\<close> and
  \<open>negSteps.val\<close> are 16-bit and wrap around.
\<close>

definition calcEdges :: "nat \<Rightarrow> word16 \<Rightarrow> DroneOscSection \<Rightarrow> DroneOscSection" where
  "calcEdges t period s =
     (let s = (if period \<le> 1 then setSteps t 0 0 s else s);
          posSteps = period;
          posSteps = posSteps * ucast (pW s);
          posSteps = ucast (Word_msb posSteps);
          posSteps = (if posSteps = 0 then 1 else posSteps);
          negSteps = period - posSteps;
          (posSteps, negSteps) =
             (if negSteps > 255 then (posSteps + (negSteps - 255), 255)
              else (posSteps, negSteps))
      in setSteps t (Word_lsb posSteps) (Word_lsb negSteps) s)"

text \<open>
  The loop \<open>while ( noteNum >= numNotes ) noteNum -= 12\<close> of \<open>setNote\<close>. A byte of 48 or
  more stays at least 36 after the subtraction, so the loop counts down without
  wrapping.
\<close>

function wrapNote :: "byte \<Rightarrow> byte" where
  "wrapNote noteNum = (if noteNum \<ge> numNotes then wrapNote (noteNum - 12) else noteNum)"
  by pat_completeness auto
termination
proof (relation "measure unat")
  show "wf (measure (unat :: byte \<Rightarrow> nat))" by simp
next
  fix noteNum :: byte
  assume "numNotes \<le> noteNum"
  then have "12 \<le> noteNum" by (simp add: numNotes_def word_le_nat_alt)
  then have "unat (noteNum - 12) = unat noteNum - 12" by (simp add: unat_sub)
  moreover have "12 \<le> unat noteNum" using \<open>12 \<le> noteNum\<close> by (simp add: word_le_nat_alt)
  ultimately show "(noteNum - 12, noteNum) \<in> measure unat" by simp
qed

declare wrapNote.simps [simp del]

text \<open>
  One pass of the phase-lock loop of \<open>setNote\<close>: slot \<open>t\<close> takes the edge index and the
  downcounter of slot \<open>i\<close> when \<open>i\<close> is another slot with the same note.
\<close>

definition lockTo :: "nat \<Rightarrow> nat \<Rightarrow> DroneOscSection \<Rightarrow> DroneOscSection" where
  "lockTo t i s =
     (if t = i then s
      else if note' s ! t \<noteq> note' s ! i then s
      else (let s = s\<lparr>edgIdx := (edgIdx s)[t := edgIdx s ! i]\<rparr>
            in s\<lparr>edgeDC := (edgeDC s)[t := edgeDC s ! i]\<rparr>))"

text \<open>
  \<open>setNote\<close>. The loop \<open>for ( byte i = 0; i < numOsc; i++ )\<close> runs over the slots below
  \<open>numOsc\<close>, which its body does not change.
\<close>

definition setNote :: "nat \<Rightarrow> byte \<Rightarrow> DroneOscSection \<Rightarrow> DroneOscSection" where
  "setNote t noteNum s =
     (if freeze s then s
      else if noteNum = NoNote then
        (let s = s\<lparr>edgIdx := (edgIdx s)[t := 0]\<rparr>;
             s = setSteps t 0 0 s
         in s\<lparr>note' := (note' s)[t := NoNote]\<rparr>)
      else
        (let noteNum = wrapNote noteNum;
             s = s\<lparr>note' := (note' s)[t := noteNum]\<rparr>;
             idx = (push_bit 1 noteNum :: byte);
             elePtr = periods + ucast idx;
             s = calcEdges t (pgm_read_word_near elePtr) s
         in fold (lockTo t) [0..<unat (numOsc s)] s))"

definition setNumOsc :: "byte \<Rightarrow> DroneOscSection \<Rightarrow> DroneOscSection" where
  "setNumOsc n s =
     (let n = (if n = 0 then 1 else n);
          n = (if unat n > MAX_OSC then of_nat MAX_OSC else n);
          s = s\<lparr>numOsc := n\<rparr>;
          s = (if curOsc s \<ge> numOsc s then s\<lparr>curOsc := numOsc s - 1\<rparr> else s);
          s = s\<lparr>ampOsc := 127 div numOsc s\<rparr>
      in fold (\<lambda>i s.
                 let s = s\<lparr>edgVal := put2 (edgVal s) i 0 (ampOsc s)\<rparr>
                 in s\<lparr>edgVal := put2 (edgVal s) i 1
                        (if get2 (edgLen s) i 0 \<noteq> 0 \<and> get2 (edgLen s) i 1 \<noteq> 0
                         then - ampOsc s else ampOsc s)\<rparr>)
              [0..<unat (numOsc s)] s)"

text \<open>
  \<open>setPW\<close>: the sum \<open>edgLen[i][0] + edgLen[i][1]\<close> is formed in \<open>int\<close> and passed as a
  16-bit word.
\<close>

definition setPW :: "byte \<Rightarrow> DroneOscSection \<Rightarrow> DroneOscSection" where
  "setPW x s =
     (let x = (if x < 1 then 1 else x);
          x = (if x > 128 then 128 else x);
          s = s\<lparr>pW := x\<rparr>
      in fold (\<lambda>i s. calcEdges i (ucast (get2 (edgLen s) i 0) + ucast (get2 (edgLen s) i 1)) s)
              [0..<unat (numOsc s)] s)"

text \<open>
  The loop \<open>while ( phase >= period ) phase -= period\<close> of \<open>setPhase\<close>. It need not
  terminate; \<open>None\<close> stands for a loop that runs forever.
\<close>

partial_function (option) normPhase :: "word16 \<Rightarrow> word16 \<Rightarrow> word16 option" where
  "normPhase phase period =
     (if phase \<ge> period then normPhase (phase - period) period else Some phase)"

declare normPhase.simps [code]

definition setPhase :: "nat \<Rightarrow> word16 \<Rightarrow> DroneOscSection \<Rightarrow> DroneOscSection option" where
  "setPhase t phase s =
     (let period = (ucast (get2 (edgLen s) t 0) + ucast (get2 (edgLen s) t 1) :: word16)
      in case normPhase phase period of
           None \<Rightarrow> None
         | Some phase \<Rightarrow>
             Some (if phase < ucast (get2 (edgLen s) t 0) then
                     (let s = s\<lparr>edgIdx := (edgIdx s)[t := 0]\<rparr>
                      in s\<lparr>edgeDC := (edgeDC s)[t := ucast (ucast (get2 (edgLen s) t 0) - phase)]\<rparr>)
                   else
                     (let s = s\<lparr>edgIdx := (edgIdx s)[t := 1]\<rparr>
                      in s\<lparr>edgeDC := (edgeDC s)[t := ucast (period - phase)]\<rparr>)))"

text \<open>
  \<open>output\<close>: the body of the inner loop for slot \<open>t\<close>, carrying the running sum
  \<open>outVal\<close>, a \<open>char\<close>; then one pass of the outer loop, which yields one sample; then
  the outer loop for \<open>icnt\<close> samples (\<open>audioBufSz\<close> in the sketch).
\<close>

definition oscTick :: "nat \<Rightarrow> DroneOscSection \<times> cchar \<Rightarrow> DroneOscSection \<times> cchar" where
  "oscTick t = (\<lambda>(s, outVal).
     let s = s\<lparr>edgeDC := (edgeDC s)[t := edgeDC s ! t - 1]\<rparr>;
         s = (if edgeDC s ! t = 0 then
                (let s = s\<lparr>edgIdx := (edgIdx s)[t := edgIdx s ! t XOR 1]\<rparr>
                 in s\<lparr>edgeDC := (edgeDC s)[t := get2 (edgLen s) t (unat (edgIdx s ! t))]\<rparr>)
              else s)
     in (s, outVal + get2 (edgVal s) t (unat (edgIdx s ! t))))"

definition outputTick :: "DroneOscSection \<Rightarrow> DroneOscSection \<times> cchar" where
  "outputTick s = fold oscTick [0..<unat (numOsc s)] (s, 0)"

fun output_osc :: "nat \<Rightarrow> DroneOscSection \<Rightarrow> DroneOscSection \<times> cchar list" where
  "output_osc 0 s = (s, [])"
| "output_osc (Suc icnt) s =
     (let (s, outVal) = outputTick s;
          (s, buf) = output_osc icnt s
      in (s, outVal # buf))"

text \<open>
  The reset case \<open>'!'\<close> of \<open>charEv\<close>, as far as it concerns the members above: the call
  of \<open>super::charEv\<close> and the member \<open>tracking\<close> belong to the base class.
\<close>

definition reset :: "DroneOscSection \<Rightarrow> DroneOscSection" where
  "reset s =
     (let s = s\<lparr>freeze := False\<rparr>;
          s = s\<lparr>pW := 128\<rparr>;
          s = setNumOsc 1 s
      in fold (\<lambda>i. setNote i NoNote) [0..<MAX_OSC] s)"

text \<open>
  A section whose members are all zero, the arrays of the declared sizes: a starting
  point for building concrete sections with the operations above.
\<close>

definition blank :: DroneOscSection where
  "blank = \<lparr>numOsc = 0, curOsc = 0, ampOsc = 0, edgIdx = [0, 0, 0, 0], edgeDC = [0, 0, 0, 0],
     edgLen = [[0, 0], [0, 0], [0, 0], [0, 0]], edgVal = [[0, 0], [0, 0], [0, 0], [0, 0]],
     note' = [0, 0, 0, 0], pW = 0, freeze = False\<rparr>"

section \<open>Auxiliary notions for the statements\<close>

text \<open>
  The arithmetic of \<open>calcEdges\<close> by itself: the final values of \<open>posSteps.val\<close> and
  \<open>negSteps.val\<close> for a pulse width and a period.
\<close>

definition edgeSteps :: "byte \<Rightarrow> word16 \<Rightarrow> word16 \<times> word16" where
  "edgeSteps w period =
     (let posSteps = period;
          posSteps = posSteps * ucast w;
          posSteps = ucast (Word_msb posSteps);
          posSteps = (if posSteps = 0 then 1 else posSteps);
          negSteps = period - posSteps
      in (if negSteps > 255 then (posSteps + (negSteps - 255), 255)
          else (posSteps, negSteps)))"

text \<open>
  The period of slot \<open>t\<close> in samples, \<open>edgLen[t][0] + edgLen[t][1]\<close>, as a natural
  number.
\<close>

definition periodOf :: "DroneOscSection \<Rightarrow> nat \<Rightarrow> nat" where
  "periodOf s t = unat (get2 (edgLen s) t 0) + unat (get2 (edgLen s) t 1)"

text \<open>
  The body of the loop of \<open>setPW\<close> for slot \<open>i\<close>.
\<close>

definition recalc :: "nat \<Rightarrow> DroneOscSection \<Rightarrow> DroneOscSection" where
  "recalc i s = calcEdges i (ucast (get2 (edgLen s) i 0) + ucast (get2 (edgLen s) i 1)) s"

text \<open>
  The specification's reading of the wrapping of a note index, on natural numbers: the
  index is reduced by whole octaves of twelve notes until it is in the range of the
  48-entry table.
\<close>

fun octaveFold :: "nat \<Rightarrow> nat" where
  "octaveFold n = (if n < 48 then n else octaveFold (n - 12))"

declare octaveFold.simps [simp del]

text \<open>
  A slot that gives a steady level: its edge index is 0 or 1 and both of its edge
  values are \<open>ampOsc\<close>.
\<close>

definition steady :: "nat \<Rightarrow> DroneOscSection \<Rightarrow> bool" where
  "steady t s \<longleftrightarrow>
     (edgIdx s ! t = 0 \<or> edgIdx s ! t = 1) \<and>
     get2 (edgVal s) t 0 = ampOsc s \<and> get2 (edgVal s) t 1 = ampOsc s"

text \<open>
  The phase of slot \<open>i\<close>: its edge index and its downcounter.
\<close>

definition phaseOf :: "DroneOscSection \<Rightarrow> nat \<Rightarrow> byte \<times> byte" where
  "phaseOf s i = (edgIdx s ! i, edgeDC s ! i)"

text \<open>
  Concrete sections, built with the operations of the sketch from a reset section.
  \<open>unison\<close> has three oscillators; slots 1 and 2 sound note 5 in phase. \<open>detuned\<close> is
  \<open>unison\<close> after \<open>setPhase(2, 5)\<close>: slots 1 and 2 sound note 5 out of phase. \<open>duo\<close> has
  two oscillators, sounding notes 7 and 5, after a time with four in which slot 3 was
  given note 9.
\<close>

definition unison :: DroneOscSection where
  "unison =
     (let s = setNumOsc 3 (reset blank);
          s = setNote 1 5 s;
          s = (case setPhase 1 0 s of Some s' \<Rightarrow> s' | None \<Rightarrow> s)
      in setNote 2 5 s)"

definition detuned :: DroneOscSection where
  "detuned = (case setPhase 2 5 unison of Some s' \<Rightarrow> s' | None \<Rightarrow> unison)"


text \<open>
  The section with both edge values of slot \<open>t\<close> at 0, so that the slot adds nothing
  to a sample.
\<close>

definition mute :: "nat \<Rightarrow> DroneOscSection \<Rightarrow> DroneOscSection" where
  "mute t s = s\<lparr>edgVal := (edgVal s)[t := [0, 0]]\<rparr>"

text \<open>
  The last slot below \<open>N\<close> with a property, if there is one.
\<close>

fun lastOther :: "(nat \<Rightarrow> bool) \<Rightarrow> nat \<Rightarrow> nat option" where
  "lastOther P 0 = None"
| "lastOther P (Suc k) = (if P k then Some k else lastOther P k)"

text \<open>
  Slot \<open>t\<close> put at edge index \<open>e\<close> with downcounter \<open>d\<close>.
\<close>

definition atPhase :: "nat \<Rightarrow> byte \<Rightarrow> byte \<Rightarrow> DroneOscSection \<Rightarrow> DroneOscSection" where
  "atPhase t e d s = s\<lparr>edgIdx := (edgIdx s)[t := e], edgeDC := (edgeDC s)[t := d]\<rparr>"

text \<open>
  Slot \<open>t\<close> at the start of its cycle: at the beginning of its high edge, or of its low
  edge when the high edge has no samples.
\<close>

definition edgeStart :: "nat \<Rightarrow> DroneOscSection \<Rightarrow> DroneOscSection" where
  "edgeStart t s =
     (let e = (if get2 (edgLen s) t 0 \<noteq> 0 then 0 else 1)
      in atPhase t e (get2 (edgLen s) t (unat e)) s)"

text \<open>
  Slot \<open>t\<close> after \<open>k\<close> samples: \<open>k\<close> passes of the loop body of \<open>output\<close> for that slot.
\<close>

definition runSlot :: "nat \<Rightarrow> nat \<Rightarrow> DroneOscSection \<Rightarrow> DroneOscSection" where
  "runSlot t k s = ((\<lambda>q. fst (oscTick t (q, 0))) ^^ k) s"

text \<open>
  The body of the loop of \<open>setNumOsc\<close> for slot \<open>i\<close>.
\<close>

definition levelStep :: "nat \<Rightarrow> DroneOscSection \<Rightarrow> DroneOscSection" where
  "levelStep i s =
     (let s = s\<lparr>edgVal := put2 (edgVal s) i 0 (ampOsc s)\<rparr>
      in s\<lparr>edgVal := put2 (edgVal s) i 1
             (if get2 (edgLen s) i 0 \<noteq> 0 \<and> get2 (edgLen s) i 1 \<noteq> 0
              then - ampOsc s else ampOsc s)\<rparr>)"

section \<open>Bytes and words\<close>

lemma unat_ucast_up: "unat (ucast (b :: byte) :: word16) = unat b"
proof -
  have "unat b < 2 ^ 16" using unsigned_less [of b, where 'a = nat] by simp
  then show ?thesis by (simp add: unsigned_ucast_eq take_bit_nat_eq_self)
qed

lemma unat_ucast_down: "unat (ucast (w :: word16) :: byte) = unat w mod 256"
  by (simp add: unsigned_ucast_eq take_bit_eq_mod)

lemma unat_byte_le: "unat (b :: byte) \<le> 255"
  using unsigned_less [of b, where 'a = nat] by simp

lemma sint_ucast_down: "sint (ucast (w :: word16) :: cchar) = signed_take_bit 7 (sint w)"
proof -
  have "sint (word_of_int (uint w) :: cchar) = signed_take_bit (LENGTH(8) - 1) (uint w)"
    by (rule sint_sbintrunc')
  moreover have "LENGTH(8) - 1 = (7::nat)" by simp
  ultimately have "sint (ucast w :: cchar) = signed_take_bit 7 (uint w)"
    by (simp only: ucast_eq)
  moreover have "signed_take_bit 7 (sint w) = signed_take_bit 7 (uint w)"
    by (simp add: sint_uint)
  ultimately show ?thesis by simp
qed

section \<open>The final mix\<close>

lemma sint_mix: "sint (mix d l) = (3 * sint d + sint l) div 4"
proof -
  have d: "- 128 \<le> sint d" "sint d \<le> 127" using sint_ge [of d] sint_lt [of d] by simp_all
  have l: "- 128 \<le> sint l" "sint l \<le> 127" using sint_ge [of l] sint_lt [of l] by simp_all
  have up: "is_up (scast :: cchar \<Rightarrow> word16)" by (simp add: is_up)
  have s: "sint ((scast d :: word16) * 3 + scast l) = 3 * sint d + sint l"
    using d l
    by (simp add: sint_word_ariths sint_up_scast [OF up] signed_take_bit_int_eq_self)
  have r: "- 128 \<le> (3 * sint d + sint l) div 4" "(3 * sint d + sint l) div 4 \<le> 127"
    using d l by linarith+
  have "sint (mix d l) = signed_take_bit 7 ((3 * sint d + sint l) div 4)"
    by (simp add: mix_def sint_ucast_down sint_signed_drop_bit_eq s drop_bit_eq_div)
  also have "\<dots> = (3 * sint d + sint l) div 4"
    using r by (simp add: signed_take_bit_int_eq_self)
  finally show ?thesis .
qed

text \<open>
  C9. In every position of either channel the sample that \<open>DroneSynth::output\<close> leaves
  in the buffer is, read as a signed value, \<open>(3 * droneChannel + leadChannel) div 4\<close>
  computed on the integers, \<open>div\<close> rounding towards minus infinity: neither the 16-bit
  sum nor the store into the \<open>char\<close> buffer loses anything. A drone sample of 100 and a
  lead sample of 40 give 85.
\<close>

theorem output_mix_formula:
  "map sint (fst (output_mix bufL bufR leadbuf)) =
     map (\<lambda>i. (3 * sint (bufL ! i) + sint (leadbuf ! i)) div 4) [0..<length leadbuf]
   \<and> map sint (snd (output_mix bufL bufR leadbuf)) =
     map (\<lambda>i. (3 * sint (bufR ! i) + sint (leadbuf ! i)) div 4) [0..<length leadbuf]
   \<and> sint (mix droneChannel leadChannel) = (3 * sint droneChannel + sint leadChannel) div 4
   \<and> mix 100 40 = 85
   \<and> output_mix [100] [100] [40] = ([85], [85])"
  by (simp add: output_mix_def sint_mix) (simp add: mix_def)

section \<open>Starting, stopping and fading\<close>

text \<open>
  C8. \<open>start\<close> takes \<open>STOPPED\<close> and \<open>FADE_OUT\<close> (and \<open>FADE_IN\<close>) to \<open>FADE_IN\<close> and leaves a
  synth that is \<open>PLAYING\<close> as it is; \<open>stop\<close> takes \<open>FADE_IN\<close>, \<open>PLAYING\<close> and \<open>FADE_OUT\<close> to
  \<open>FADE_OUT\<close> and leaves a synth that is \<open>STOPPED\<close> as it is. Nothing but the play
  status changes.
\<close>

theorem start_stop_transitions:
  "start (s\<lparr>playStatus := STOPPED\<rparr>) = s\<lparr>playStatus := FADE_IN\<rparr>
   \<and> start (s\<lparr>playStatus := FADE_OUT\<rparr>) = s\<lparr>playStatus := FADE_IN\<rparr>
   \<and> start (s\<lparr>playStatus := FADE_IN\<rparr>) = s\<lparr>playStatus := FADE_IN\<rparr>
   \<and> start (s\<lparr>playStatus := PLAYING\<rparr>) = s\<lparr>playStatus := PLAYING\<rparr>
   \<and> stop (s\<lparr>playStatus := FADE_IN\<rparr>) = s\<lparr>playStatus := FADE_OUT\<rparr>
   \<and> stop (s\<lparr>playStatus := PLAYING\<rparr>) = s\<lparr>playStatus := FADE_OUT\<rparr>
   \<and> stop (s\<lparr>playStatus := FADE_OUT\<rparr>) = s\<lparr>playStatus := FADE_OUT\<rparr>
   \<and> stop (s\<lparr>playStatus := STOPPED\<rparr>) = s\<lparr>playStatus := STOPPED\<rparr>"
  by (simp add: start_def stop_def)

lemma dynamics_FADE_IN:
  "playStatus s = FADE_IN \<Longrightarrow>
     dynamics s = (if vol s = 255 then s\<lparr>playStatus := PLAYING\<rparr> else s\<lparr>vol := vol s + 1\<rparr>)"
  by (simp add: dynamics_def super_dynamics_def setVol_def)

lemma dynamics_FADE_OUT:
  "playStatus s = FADE_OUT \<Longrightarrow>
     dynamics s = (if vol s = 0 then s\<lparr>playStatus := STOPPED\<rparr> else s\<lparr>vol := vol s - 1\<rparr>)"
  by (simp add: dynamics_def super_dynamics_def setVol_def)

lemma fade_in_run:
  "playStatus s = FADE_IN \<Longrightarrow> unat (vol s) + k \<le> 255 \<Longrightarrow>
     (dynamics ^^ k) s = s\<lparr>vol := vol s + of_nat k\<rparr>"
proof (induction k)
  case 0
  show ?case by simp
next
  case (Suc k)
  have "unat (vol s + of_nat k) = unat (vol s) + k"
    using Suc.prems by (simp add: unat_word_ariths unat_of_nat)
  then have "vol s + of_nat k \<noteq> 255" using Suc.prems by auto
  then show ?case using Suc by (simp add: dynamics_FADE_IN add.assoc)
qed

lemma fade_out_run:
  "playStatus s = FADE_OUT \<Longrightarrow> k \<le> unat (vol s) \<Longrightarrow>
     (dynamics ^^ k) s = s\<lparr>vol := vol s - of_nat k\<rparr>"
proof (induction k)
  case 0
  show ?case by simp
next
  case (Suc k)
  have k: "k mod 256 = k" using Suc.prems unat_byte_le [of "vol s"] by simp
  have "of_nat k \<le> vol s" using Suc.prems by (simp add: word_le_nat_alt unat_of_nat k)
  then have "unat (vol s - of_nat k) = unat (vol s) - k"
    using Suc.prems by (simp add: unat_sub unat_of_nat k)
  then have "vol s - of_nat k \<noteq> 0" using Suc.prems by (auto simp flip: unat_eq_0)
  then show ?case using Suc by (simp add: dynamics_FADE_OUT diff_diff_eq)
qed

lemma fade_in_done:
  assumes "playStatus s = FADE_IN"
  shows "(dynamics ^^ (256 - unat (vol s))) s = s\<lparr>playStatus := PLAYING, vol := 255\<rparr>"
proof -
  define k where "k = 255 - unat (vol s)"
  have k: "unat (vol s) + k = 255" using unat_byte_le [of "vol s"] by (simp add: k_def)
  have "vol s + of_nat k = of_nat (unat (vol s)) + of_nat k" by simp
  also have "\<dots> = of_nat (unat (vol s) + k)" by (simp only: of_nat_add)
  also have "\<dots> = 255" by (simp only: k) simp
  finally have v: "vol s + of_nat k = 255" .
  have "256 - unat (vol s) = Suc k" using unat_byte_le [of "vol s"] by (simp add: k_def)
  then have "(dynamics ^^ (256 - unat (vol s))) s = dynamics ((dynamics ^^ k) s)" by simp
  also have "\<dots> = dynamics (s\<lparr>vol := 255\<rparr>)"
    using fade_in_run [OF assms, of k] k v by simp
  also have "\<dots> = s\<lparr>playStatus := PLAYING, vol := 255\<rparr>"
    using assms by (simp add: dynamics_FADE_IN)
  finally show ?thesis .
qed

lemma fade_out_done:
  assumes "playStatus s = FADE_OUT"
  shows "(dynamics ^^ (unat (vol s) + 1)) s = s\<lparr>playStatus := STOPPED, vol := 0\<rparr>"
proof -
  have "(dynamics ^^ (unat (vol s) + 1)) s = dynamics ((dynamics ^^ unat (vol s)) s)" by simp
  also have "\<dots> = dynamics (s\<lparr>vol := 0\<rparr>)"
    using fade_out_run [OF assms, of "unat (vol s)"] by simp
  also have "\<dots> = s\<lparr>playStatus := STOPPED, vol := 0\<rparr>"
    using assms by (simp add: dynamics_FADE_OUT)
  finally show ?thesis .
qed

text \<open>
  C7. While the status is \<open>FADE_IN\<close>, a call of \<open>dynamics\<close> either raises the volume by
  exactly one and keeps the status, or, at volume 255, keeps the volume and makes the
  status \<open>PLAYING\<close>; so the volume never falls, after \<open>k\<close> calls it has risen by \<open>k\<close> as
  long as that stays within 255, and after \<open>256 - vol\<close> calls the synth is \<open>PLAYING\<close> at
  volume 255. While the status is \<open>FADE_OUT\<close>, a call either lowers the volume by
  exactly one or, at volume 0, makes the status \<open>STOPPED\<close>; the volume never rises, and
  after \<open>vol + 1\<close> calls the synth is \<open>STOPPED\<close> at volume 0.
\<close>

theorem dynamics_fade:
  "(playStatus s = FADE_IN \<longrightarrow>
      (if vol s = 255 then dynamics s = s\<lparr>playStatus := PLAYING\<rparr>
       else dynamics s = s\<lparr>vol := vol s + 1\<rparr> \<and> unat (vol (dynamics s)) = unat (vol s) + 1)
      \<and> unat (vol s) \<le> unat (vol (dynamics s))
      \<and> (\<forall>k. unat (vol s) + k \<le> 255 \<longrightarrow> (dynamics ^^ k) s = s\<lparr>vol := vol s + of_nat k\<rparr>)
      \<and> (dynamics ^^ (256 - unat (vol s))) s = s\<lparr>playStatus := PLAYING, vol := 255\<rparr>)
   \<and> (playStatus s = FADE_OUT \<longrightarrow>
      (if vol s = 0 then dynamics s = s\<lparr>playStatus := STOPPED\<rparr>
       else dynamics s = s\<lparr>vol := vol s - 1\<rparr> \<and> unat (vol (dynamics s)) = unat (vol s) - 1)
      \<and> unat (vol (dynamics s)) \<le> unat (vol s)
      \<and> (\<forall>k. k \<le> unat (vol s) \<longrightarrow> (dynamics ^^ k) s = s\<lparr>vol := vol s - of_nat k\<rparr>)
      \<and> (dynamics ^^ (unat (vol s) + 1)) s = s\<lparr>playStatus := STOPPED, vol := 0\<rparr>)"
proof (intro conjI impI allI)
  assume a: "playStatus s = FADE_IN"
  have up: "unat (vol s + 1) = unat (vol s) + 1" if "vol s \<noteq> 255"
  proof -
    have "unat (vol s) \<noteq> 255"
    proof
      assume "unat (vol s) = 255"
      then have "of_nat (unat (vol s)) = (of_nat 255 :: byte)" by (simp only:)
      then show False using that by simp
    qed
    then have "unat (vol s) < 255" using unat_byte_le [of "vol s"] by simp
    then show ?thesis by (simp add: unat_word_ariths)
  qed
  show "if vol s = 255 then dynamics s = s\<lparr>playStatus := PLAYING\<rparr>
        else dynamics s = s\<lparr>vol := vol s + 1\<rparr> \<and> unat (vol (dynamics s)) = unat (vol s) + 1"
    using a up by (simp add: dynamics_FADE_IN)
  show "unat (vol s) \<le> unat (vol (dynamics s))"
    using a up by (simp add: dynamics_FADE_IN)
  show "(dynamics ^^ (256 - unat (vol s))) s = s\<lparr>playStatus := PLAYING, vol := 255\<rparr>"
    by (rule fade_in_done [OF a])
  fix k assume "unat (vol s) + k \<le> 255"
  then show "(dynamics ^^ k) s = s\<lparr>vol := vol s + of_nat k\<rparr>"
    by (rule fade_in_run [OF a])
next
  assume a: "playStatus s = FADE_OUT"
  have down: "vol s \<noteq> 0 \<Longrightarrow> unat (vol s - 1) = unat (vol s) - 1"
    by (rule unat_minus_one)
  show "if vol s = 0 then dynamics s = s\<lparr>playStatus := STOPPED\<rparr>
        else dynamics s = s\<lparr>vol := vol s - 1\<rparr> \<and> unat (vol (dynamics s)) = unat (vol s) - 1"
    using a down by (simp add: dynamics_FADE_OUT)
  show "unat (vol (dynamics s)) \<le> unat (vol s)"
    using a down by (simp add: dynamics_FADE_OUT)
  show "(dynamics ^^ (unat (vol s) + 1)) s = s\<lparr>playStatus := STOPPED, vol := 0\<rparr>"
    by (rule fade_out_done [OF a])
  fix k assume "k \<le> unat (vol s)"
  then show "(dynamics ^^ k) s = s\<lparr>vol := vol s - of_nat k\<rparr>"
    by (rule fade_out_run [OF a])
qed

theorem dynamics_fade_witness:
  "playStatus \<lparr>playStatus = FADE_IN, vol = 253\<rparr> = FADE_IN
   \<and> dynamics \<lparr>playStatus = FADE_IN, vol = 253\<rparr> = \<lparr>playStatus = FADE_IN, vol = 254\<rparr>
   \<and> (dynamics ^^ 2) \<lparr>playStatus = FADE_IN, vol = 253\<rparr> = \<lparr>playStatus = FADE_IN, vol = 255\<rparr>
   \<and> (dynamics ^^ 3) \<lparr>playStatus = FADE_IN, vol = 253\<rparr> = \<lparr>playStatus = PLAYING, vol = 255\<rparr>
   \<and> playStatus \<lparr>playStatus = FADE_OUT, vol = 2\<rparr> = FADE_OUT
   \<and> dynamics \<lparr>playStatus = FADE_OUT, vol = 2\<rparr> = \<lparr>playStatus = FADE_OUT, vol = 1\<rparr>
   \<and> (dynamics ^^ 2) \<lparr>playStatus = FADE_OUT, vol = 2\<rparr> = \<lparr>playStatus = FADE_OUT, vol = 0\<rparr>
   \<and> (dynamics ^^ 3) \<lparr>playStatus = FADE_OUT, vol = 2\<rparr> = \<lparr>playStatus = STOPPED, vol = 0\<rparr>"
proof -
  let ?i = "\<lparr>playStatus = FADE_IN, vol = 253\<rparr>" and ?o = "\<lparr>playStatus = FADE_OUT, vol = 2\<rparr>"
  have i: "playStatus ?i = FADE_IN" and o: "playStatus ?o = FADE_OUT" by simp_all
  note fi = dynamics_fade [of ?i, THEN conjunct1, rule_format, OF i]
  note fo = dynamics_fade [of ?o, THEN conjunct2, rule_format, OF o]
  have i1: "dynamics ?i = \<lparr>playStatus = FADE_IN, vol = 254\<rparr>"
    using fi [THEN conjunct1] by simp
  have i2: "(dynamics ^^ 2) ?i = \<lparr>playStatus = FADE_IN, vol = 255\<rparr>"
    using fi [THEN conjunct2, THEN conjunct2, THEN conjunct1, rule_format, of 2] by simp
  have i3: "(dynamics ^^ 3) ?i = \<lparr>playStatus = PLAYING, vol = 255\<rparr>"
    using fi [THEN conjunct2, THEN conjunct2, THEN conjunct2] by simp
  have o1: "dynamics ?o = \<lparr>playStatus = FADE_OUT, vol = 1\<rparr>"
    using fo [THEN conjunct1] by simp
  have o2: "(dynamics ^^ 2) ?o = \<lparr>playStatus = FADE_OUT, vol = 0\<rparr>"
    using fo [THEN conjunct2, THEN conjunct2, THEN conjunct1, rule_format, of 2] by simp
  have o3: "(dynamics ^^ 3) ?o = \<lparr>playStatus = STOPPED, vol = 0\<rparr>"
    using fo [THEN conjunct2, THEN conjunct2, THEN conjunct2] by simp
  show ?thesis using i o i1 i2 i3 o1 o2 o3 by (intro conjI)
qed

section \<open>Arrays and the edge lengths\<close>

lemma get2_put2:
  "t < length a \<Longrightarrow> j < length (a ! t) \<Longrightarrow>
     get2 (put2 a t j v) t' j' = (if t' = t \<and> j' = j then v else get2 a t' j')"
  by (auto simp: get2_def put2_def nth_list_update)

lemma length_put2 [simp]: "length (put2 a t j v) = length a"
  by (simp add: put2_def)

lemma length_nth_put2 [simp]:
  "t' < length a \<Longrightarrow> length (put2 a t j v ! t') = length (a ! t')"
  by (cases "t' = t") (simp_all add: put2_def)

lemma list_all_put2:
  "list_all (\<lambda>e. length e = n) a \<Longrightarrow> list_all (\<lambda>e. length e = n) (put2 a t j v)"
  by (simp add: list_all_length)

lemma shapedD:
  assumes "shaped s" "t < MAX_OSC"
  shows "t < length (edgIdx s)" "t < length (edgeDC s)" "t < length (note' s)"
    "t < length (edgLen s)" "length (edgLen s ! t) = 2"
    "t < length (edgVal s)" "length (edgVal s ! t) = 2"
  using assms by (auto simp: shaped_def list_all_length)

lemma setSteps_fields [simp]:
  "numOsc (setSteps t a b s) = numOsc s" "curOsc (setSteps t a b s) = curOsc s"
  "ampOsc (setSteps t a b s) = ampOsc s" "edgIdx (setSteps t a b s) = edgIdx s"
  "edgeDC (setSteps t a b s) = edgeDC s" "note' (setSteps t a b s) = note' s"
  "pW (setSteps t a b s) = pW s" "freeze (setSteps t a b s) = freeze s"
  by (simp_all add: setSteps_def Let_def)

lemma shaped_setSteps: "shaped s \<Longrightarrow> shaped (setSteps t a b s)"
  by (simp add: shaped_def setSteps_def Let_def list_all_put2)

lemma edgLen_setSteps:
  "shaped s \<Longrightarrow> t < MAX_OSC \<Longrightarrow>
     get2 (edgLen (setSteps t a b s)) t' j =
       (if t' = t \<and> j = 0 then a else if t' = t \<and> j = 1 then b else get2 (edgLen s) t' j)"
  by (simp add: setSteps_def Let_def get2_put2 shapedD)


lemma msb_mult:
  fixes P :: word16 and w :: byte
  assumes "unat P \<le> 510" "unat w \<le> 128"
  shows "unat (ucast (Word_msb (P * ucast w)) :: word16) = unat P * unat w div 256"
proof -
  have le: "unat P * unat w \<le> 510 * 128" using assms by (intro mult_mono) simp_all
  then have m: "unat (P * ucast w) = unat P * unat w"
    by (simp add: unat_word_ariths unat_ucast_up)
  have "unat P * unat w div 256 < 256" using le by simp
  then show ?thesis
    by (simp add: Word_msb_def unat_ucast_up unat_ucast_down unat_div m drop_bit_eq_div)
qed

lemma edgeSteps_nat:
  fixes P :: word16 and w :: byte
  assumes P: "1 \<le> unat P" "unat P \<le> 510" and w: "unat w \<le> 128"
  shows "unat (fst (edgeSteps w P)) + unat (snd (edgeSteps w P)) = unat P
       \<and> 1 \<le> unat (fst (edgeSteps w P)) \<and> unat (fst (edgeSteps w P)) \<le> 255
       \<and> unat (snd (edgeSteps w P)) \<le> 255"
proof -
  define q where "q = unat P * unat w div 256"
  define pos :: word16 where "pos = (if ucast (Word_msb (P * ucast w)) = (0::word16) then 1 else ucast (Word_msb (P * ucast w)))"
  have q: "unat (ucast (Word_msb (P * ucast w)) :: word16) = q"
    unfolding q_def by (rule msb_mult [OF P(2) w])
  have "unat P * unat w \<le> unat P * 128" using w by simp
  then have "unat P * unat w div 256 \<le> unat P * 128 div 256" by (rule div_le_mono)
  then have qle: "q \<le> unat P div 2" unfolding q_def by simp
  have z: "(ucast (Word_msb (P * ucast w)) = (0::word16)) = (q = 0)"
    using q by (simp add: unat_eq_0 [symmetric])
  have upos: "unat pos = max 1 q"
    unfolding pos_def using q z by (simp add: max_def)
  have posle: "unat pos \<le> unat P" "1 \<le> unat pos" "unat pos \<le> 255" using upos qle P by (auto simp: max_def)
  then have "pos \<le> P" by (simp add: word_le_nat_alt)
  then have uneg: "unat (P - pos) = unat P - unat pos" by (simp add: unat_sub)
  have gt: "(P - pos > 255) = (unat P - unat pos > 255)"
    by (simp add: word_less_nat_alt uneg)
  have st: "edgeSteps w P = (if P - pos > 255 then (pos + (P - pos - 255), 255) else (pos, P - pos))"
    by (simp add: edgeSteps_def Let_def pos_def)
  show ?thesis
  proof (cases "P - pos > 255")
    case True
    then have big: "unat P - unat pos > 255" using gt by simp
    have eq: "pos + (P - pos - 255) = P - 255" by simp
    have "(255::word16) \<le> P" using big by (simp add: word_le_nat_alt)
    then have "unat (P - 255) = unat P - 255" by (simp add: unat_sub)
    then show ?thesis using True st big P posle eq by auto
  next
    case False
    then have "unat P - unat pos \<le> 255" using gt by simp
    then show ?thesis using False st uneg posle by simp
  qed
qed

lemma calcEdges_edgeSteps:
  "calcEdges t P s =
     setSteps t (Word_lsb (fst (edgeSteps (pW s) P))) (Word_lsb (snd (edgeSteps (pW s) P)))
       (if P \<le> 1 then setSteps t 0 0 s else s)"
  by (simp add: calcEdges_def edgeSteps_def Let_def split: prod.splits)

lemma calcEdges_fields [simp]:
  "numOsc (calcEdges t P s) = numOsc s" "curOsc (calcEdges t P s) = curOsc s"
  "ampOsc (calcEdges t P s) = ampOsc s" "edgIdx (calcEdges t P s) = edgIdx s"
  "edgeDC (calcEdges t P s) = edgeDC s" "note' (calcEdges t P s) = note' s"
  "pW (calcEdges t P s) = pW s" "freeze (calcEdges t P s) = freeze s"
  by (simp_all add: calcEdges_edgeSteps)

lemma shaped_calcEdges: "shaped s \<Longrightarrow> shaped (calcEdges t P s)"
  by (simp add: calcEdges_edgeSteps shaped_setSteps)

lemma edgLen_calcEdges:
  assumes "shaped s" "t < MAX_OSC"
  shows "get2 (edgLen (calcEdges t P s)) t' j =
       (if t' = t \<and> j = 0 then Word_lsb (fst (edgeSteps (pW s) P))
        else if t' = t \<and> j = 1 then Word_lsb (snd (edgeSteps (pW s) P))
        else get2 (edgLen s) t' j)"
  using assms by (simp add: calcEdges_edgeSteps edgLen_setSteps shaped_setSteps)

lemma periodOf_calcEdges_other:
  "shaped s \<Longrightarrow> t < MAX_OSC \<Longrightarrow> t' \<noteq> t \<Longrightarrow> periodOf (calcEdges t P s) t' = periodOf s t'"
  by (simp add: periodOf_def edgLen_calcEdges)

lemma calcEdges_split:
  assumes s: "shaped s" "t < MAX_OSC" and P: "1 \<le> unat P" "unat P \<le> 510"
    and w: "unat (pW s) \<le> 128"
  shows "periodOf (calcEdges t P s) t = unat P"
    and "1 \<le> unat (get2 (edgLen (calcEdges t P s)) t 0)"
proof -
  note n = edgeSteps_nat [OF P w]
  have a: "unat (Word_lsb (fst (edgeSteps (pW s) P))) = unat (fst (edgeSteps (pW s) P))"
    using n by (simp add: Word_lsb_def unat_ucast_down)
  have b: "unat (Word_lsb (snd (edgeSteps (pW s) P))) = unat (snd (edgeSteps (pW s) P))"
    using n by (simp add: Word_lsb_def unat_ucast_down)
  show "periodOf (calcEdges t P s) t = unat P"
    using n a b by (simp add: periodOf_def edgLen_calcEdges [OF s])
  show "1 \<le> unat (get2 (edgLen (calcEdges t P s)) t 0)"
    using n a by (simp add: edgLen_calcEdges [OF s])
qed

lemma NotePeriods_range: "P \<in> set NotePeriods \<Longrightarrow> 24 \<le> unat P \<and> unat P \<le> 360"
  by (auto simp: NotePeriods_def)

lemma edgeSteps_zero: "edgeSteps w 0 = (65281, 255)"
  by (simp add: edgeSteps_def Word_msb_def)

lemma edgeSteps_360: "edgeSteps 128 360 = (180, 180)"
  by (simp add: edgeSteps_def Word_msb_def)

text \<open>
  C1. For a period \<open>P\<close> of the note table and a pulse width between 1 and 128,
  \<open>calcEdges(t, P)\<close> leaves slot \<open>t\<close> with \<open>edgLen[t][0] + edgLen[t][1] = P\<close>, the low
  edge at most 255 samples and the high edge at least one sample long; with \<open>P = 360\<close>
  and pulse width 128 both edges are 180 samples long.
\<close>

theorem calcEdges_keeps_period:
  assumes "shaped s" "t < MAX_OSC" "P \<in> set NotePeriods" "1 \<le> pW s" "pW s \<le> 128"
  shows "unat (get2 (edgLen (calcEdges t P s)) t 0) + unat (get2 (edgLen (calcEdges t P s)) t 1) = unat P
       \<and> unat (get2 (edgLen (calcEdges t P s)) t 1) \<le> 255
       \<and> 1 \<le> unat (get2 (edgLen (calcEdges t P s)) t 0)
       \<and> (P = 360 \<and> pW s = 128 \<longrightarrow>
            get2 (edgLen (calcEdges t P s)) t 0 = 180 \<and> get2 (edgLen (calcEdges t P s)) t 1 = 180)"
proof -
  have P: "1 \<le> unat P" "unat P \<le> 510" using NotePeriods_range [OF assms(3)] by simp_all
  have w: "unat (pW s) \<le> 128" using assms(5) by (simp add: word_le_nat_alt)
  have "periodOf (calcEdges t P s) t = unat P"
    by (rule calcEdges_split(1) [OF assms(1,2) P w])
  moreover have "1 \<le> unat (get2 (edgLen (calcEdges t P s)) t 0)"
    by (rule calcEdges_split(2) [OF assms(1,2) P w])
  moreover have "unat (get2 (edgLen (calcEdges t P s)) t 1) \<le> 255"
    by (rule unat_byte_le)
  moreover have "P = 360 \<and> pW s = 128 \<longrightarrow>
            get2 (edgLen (calcEdges t P s)) t 0 = 180 \<and> get2 (edgLen (calcEdges t P s)) t 1 = 180"
    by (simp add: edgLen_calcEdges [OF assms(1,2)] edgeSteps_360 Word_lsb_def)
  ultimately show ?thesis by (simp add: periodOf_def)
qed

theorem calcEdges_keeps_period_witness:
  "shaped (reset blank) \<and> (0::nat) < MAX_OSC \<and> 360 \<in> set NotePeriods
   \<and> 1 \<le> pW (reset blank) \<and> pW (reset blank) \<le> 128
   \<and> get2 (edgLen (calcEdges 0 360 (reset blank))) 0 0 = 180
   \<and> get2 (edgLen (calcEdges 0 360 (reset blank))) 0 1 = 180"
proof -
  have a: "shaped (reset blank)" by code_simp
  have b: "(0::nat) < MAX_OSC" by (simp add: MAX_OSC_def)
  have c: "360 \<in> set NotePeriods" by (simp add: NotePeriods_def)
  have d: "1 \<le> pW (reset blank)" "pW (reset blank) \<le> 128" "pW (reset blank) = 128" by code_simp+
  show ?thesis using calcEdges_keeps_period [OF a b c d(1,2)] a b c d by simp
qed

section \<open>Periods of one sample or none, and the pulse width\<close>

lemma edgeSteps_one: "unat w \<le> 128 \<Longrightarrow> edgeSteps w 1 = (1, 0)"
proof -
  assume "unat w \<le> 128"
  then have "unat (ucast (Word_msb (1 * ucast w)) :: word16) = 0"
    using msb_mult [of 1 w] by simp
  then have "(ucast (Word_msb (ucast w)) :: word16) = 0"
    by (simp add: unat_eq_0)
  then show ?thesis by (simp add: edgeSteps_def)
qed

lemma calcEdges_zero:
  assumes "shaped s" "t < MAX_OSC"
  shows "get2 (edgLen (calcEdges t 0 s)) t 0 = 1" "get2 (edgLen (calcEdges t 0 s)) t 1 = 255"
    "periodOf (calcEdges t 0 s) t = 256"
  by (simp_all add: periodOf_def edgLen_calcEdges [OF assms] edgeSteps_zero Word_lsb_def)

lemma unat_edge_sum:
  "unat (ucast (a :: byte) + ucast (b :: byte) :: word16) = unat a + unat b"
  using unat_byte_le [of a] unat_byte_le [of b]
  by (simp add: unat_word_ariths unat_ucast_up)

lemma recalc_fields [simp]:
  "numOsc (recalc i s) = numOsc s" "pW (recalc i s) = pW s" "edgIdx (recalc i s) = edgIdx s"
  "edgeDC (recalc i s) = edgeDC s" "note' (recalc i s) = note' s" "freeze (recalc i s) = freeze s"
  "ampOsc (recalc i s) = ampOsc s"
  by (simp_all add: recalc_def)

lemma shaped_recalc: "shaped s \<Longrightarrow> shaped (recalc i s)"
  by (simp add: recalc_def shaped_calcEdges)

lemma periodOf_recalc:
  assumes s: "shaped s" "t < MAX_OSC" and w: "unat (pW s) \<le> 128"
  shows "periodOf (recalc t s) i =
           (if i = t \<and> periodOf s t = 0 then 256 else periodOf s i)"
proof (cases "i = t")
  case False
  then show ?thesis by (simp add: recalc_def periodOf_calcEdges_other [OF s])
next
  case True
  let ?P = "ucast (get2 (edgLen s) t 0) + ucast (get2 (edgLen s) t 1) :: word16"
  have P: "unat ?P = periodOf s t" by (simp add: unat_edge_sum periodOf_def)
  show ?thesis
  proof (cases "periodOf s t = 0")
    case True
    then have "?P = 0" using P by (simp add: unat_eq_0)
    then show ?thesis using True \<open>i = t\<close> by (simp add: recalc_def calcEdges_zero [OF s])
  next
    case False
    have "unat ?P \<le> 510"
      using unat_byte_le [of "get2 (edgLen s) t 0"] unat_byte_le [of "get2 (edgLen s) t 1"]
      by (simp add: unat_edge_sum)
    moreover have "1 \<le> unat ?P" using False P by simp
    ultimately have "periodOf (calcEdges t ?P s) t = unat ?P"
      using calcEdges_split(1) [OF s _ _ w] by blast
    then show ?thesis using False P \<open>i = t\<close> by (simp add: recalc_def)
  qed
qed

lemma fold_recalc:
  "shaped s \<Longrightarrow> unat (pW s) \<le> 128 \<Longrightarrow> distinct xs \<Longrightarrow> \<forall>x \<in> set xs. x < MAX_OSC \<Longrightarrow>
     shaped (fold recalc xs s) \<and> pW (fold recalc xs s) = pW s \<and>
     numOsc (fold recalc xs s) = numOsc s \<and>
     periodOf (fold recalc xs s) i =
       (if i \<in> set xs \<and> periodOf s i = 0 then 256 else periodOf s i)"
proof (induction xs arbitrary: s)
  case Nil
  then show ?case by simp
next
  case (Cons x xs)
  have x: "x < MAX_OSC" using Cons.prems by simp
  have "shaped (recalc x s)" "unat (pW (recalc x s)) \<le> 128"
    using Cons.prems by (simp_all add: shaped_recalc)
  moreover have "distinct xs" "\<forall>x \<in> set xs. x < MAX_OSC" using Cons.prems by simp_all
  ultimately have IH: "shaped (fold recalc xs (recalc x s)) \<and>
     pW (fold recalc xs (recalc x s)) = pW (recalc x s) \<and>
     numOsc (fold recalc xs (recalc x s)) = numOsc (recalc x s) \<and>
     periodOf (fold recalc xs (recalc x s)) i =
       (if i \<in> set xs \<and> periodOf (recalc x s) i = 0 then 256 else periodOf (recalc x s) i)"
    by (rule Cons.IH)
  have p: "periodOf (recalc x s) i = (if i = x \<and> periodOf s x = 0 then 256 else periodOf s i)"
    using Cons.prems by (intro periodOf_recalc) (simp_all add: x)
  have "x \<notin> set xs" using Cons.prems by simp
  then show ?case using IH p by auto
qed

lemma setPW_fold:
  "setPW x s = fold recalc [0..<unat (numOsc s)]
                 (s\<lparr>pW := (if x < 1 then 1 else if x > 128 then 128 else x)\<rparr>)"
proof -
  have "(\<lambda>i s. calcEdges i (ucast (get2 (edgLen s) i 0) + ucast (get2 (edgLen s) i 1)) s) = recalc"
    by (intro ext) (simp add: recalc_def)
  then show ?thesis by (auto simp: setPW_def Let_def)
qed

lemma setPW_effect:
  assumes "shaped s"
  shows "pW (setPW x s) = (if x < 1 then 1 else if x > 128 then 128 else x)"
    and "shaped (setPW x s)"
    and "periodOf (setPW x s) i =
           (if i < unat (numOsc s) \<and> periodOf s i = 0 then 256 else periodOf s i)"
proof -
  let ?w = "if x < 1 then 1 else if x > 128 then 128 else x"
  let ?s = "s\<lparr>pW := ?w\<rparr>"
  have sh: "shaped ?s" using assms by (simp add: shaped_def)
  have w: "unat (pW ?s) \<le> 128" by (simp add: word_less_nat_alt)
  have b: "\<forall>x \<in> set [0..<unat (numOsc s)]. x < MAX_OSC" using assms by (simp add: shaped_def)
  have per: "periodOf ?s i = periodOf s i" by (simp add: periodOf_def)
  note f = fold_recalc [OF sh w distinct_upt b, of i]
  show "pW (setPW x s) = ?w" using f by (simp add: setPW_fold)
  show "shaped (setPW x s)" using f by (simp add: setPW_fold)
  show "periodOf (setPW x s) i =
           (if i < unat (numOsc s) \<and> periodOf s i = 0 then 256 else periodOf s i)"
    using f per by (simp add: setPW_fold)
qed

text \<open>
  C2. What the sketch does with a period of zero or one. After a reset slot 0 is
  silent, both edge lengths 0. \<open>calcEdges\<close> with period 0 leaves it with edge lengths 1
  and 255, and with period 1 with edge lengths 1 and 0: the call \<open>setSteps(t, 0, 0)\<close> in
  the branch for \<open>period <= 1\<close> is not followed by a return, and the computation after
  it stores its own result. So \<open>setPW\<close> on the silent slot, which passes the period 0,
  leaves the slot with edge lengths 1 and 255 and not silent.
\<close>

theorem calcEdges_small_period_not_silent:
  "get2 (edgLen (reset blank)) 0 0 = 0 \<and> get2 (edgLen (reset blank)) 0 1 = 0
   \<and> get2 (edgLen (calcEdges 0 0 (reset blank))) 0 0 = 1
   \<and> get2 (edgLen (calcEdges 0 0 (reset blank))) 0 1 = 255
   \<and> get2 (edgLen (calcEdges 0 1 (reset blank))) 0 0 = 1
   \<and> get2 (edgLen (calcEdges 0 1 (reset blank))) 0 1 = 0
   \<and> get2 (edgLen (setPW 64 (reset blank))) 0 0 = 1
   \<and> get2 (edgLen (setPW 64 (reset blank))) 0 1 = 255"
  by code_simp

text \<open>
  C3. What \<open>setPW\<close> does to the period of a silent slot. After a reset the section has
  one oscillator and slot 0 has period 0. \<open>setPW(64)\<close> stores the pulse width 64 and
  leaves slot 0 with period 256: the period of the silent slot is not kept. (For a slot
  whose period is not 0 the period is kept, see \<open>setPW_effect\<close>.)
\<close>

theorem setPW_silent_slot_period:
  "unat (numOsc (reset blank)) = 1 \<and> periodOf (reset blank) 0 = 0
   \<and> pW (setPW 64 (reset blank)) = 64
   \<and> periodOf (setPW 64 (reset blank)) 0 = 256"
  by code_simp

section \<open>Notes and their periods\<close>

lemma Word_bytes: "push_bit 8 (ucast (Word_msb w)) OR ucast (Word_lsb w) = w"
  unfolding Word_msb_def Word_lsb_def
  by (rule bit_word_eqI) (auto simp: bit_simps)

lemma nth_concat_pairs:
  "k < length ws \<Longrightarrow>
     concat (map (\<lambda>w. [f w, g w]) ws) ! (2 * k) = f (ws ! k) \<and>
     concat (map (\<lambda>w. [f w, g w]) ws) ! (2 * k + 1) = g (ws ! k)"
proof (induction ws arbitrary: k)
  case Nil
  then show ?case by simp
next
  case (Cons w ws)
  show ?case
  proof (cases k)
    case 0
    then show ?thesis by simp
  next
    case (Suc m)
    then have "m < length ws" using Cons.prems by simp
    then show ?thesis using Cons.IH [of m] Suc by simp
  qed
qed

lemma pgm_read_period:
  assumes "unat m < 48"
  shows "pgm_read_word_near (periods + ucast (push_bit 1 m :: byte)) = NotePeriods ! unat m"
proof -
  have "unat (push_bit 1 m :: byte) = 2 * unat m"
    using assms by (simp add: unat_word_ariths push_bit_eq_mult)
  then have a: "unat (periods + ucast (push_bit 1 m :: byte)) = 2 * unat m"
    by (simp add: periods_def unat_ucast_up)
  have l: "unat m < length NotePeriods" using assms by (simp add: NotePeriods_def)
  show ?thesis
    unfolding pgm_read_word_near_def a rom_def
    using nth_concat_pairs [OF l, of Word_lsb Word_msb]
    by (simp add: Word_bytes)
qed

lemma octaveFold_closed: "octaveFold n = (if n < 48 then n else 36 + n mod 12)"
proof (induction n rule: octaveFold.induct)
  case (1 n)
  show ?case
  proof (cases "n < 48")
    case True
    then show ?thesis by (subst octaveFold.simps) simp
  next
    case False
    then have IH: "octaveFold (n - 12) = (if n - 12 < 48 then n - 12 else 36 + (n - 12) mod 12)"
      by (rule "1.IH")
    have o: "octaveFold n = octaveFold (n - 12)"
      using False by (subst octaveFold.simps) simp
    show ?thesis
    proof (cases "n < 60")
      case True
      have "n = (n - 48) + 12 * 4" using False by simp
      then have "n mod 12 = (n - 48 + 12 * 4) mod 12" by simp
      also have "\<dots> = (n - 48) mod 12" by (rule mod_mult_self2)
      also have "\<dots> = n - 48" using True by simp
      finally have m: "n mod 12 = n - 48" .
      have "n - 12 < 48" using True by simp
      then have "octaveFold n = n - 12" using o IH by simp
      then show ?thesis using False m by simp
    next
      case False
      then have "12 \<le> n" by simp
      then have m: "n mod 12 = (n - 12) mod 12" by (rule le_mod_geq)
      have "\<not> n - 12 < 48" using False by simp
      then have "octaveFold n = 36 + (n - 12) mod 12" using o IH by simp
      then show ?thesis using False m by simp
    qed
  qed
qed

lemma wrapNote_octaveFold: "unat (wrapNote n) = octaveFold (unat n)"
proof (induction n rule: wrapNote.induct)
  case (1 n)
  show ?case
  proof (cases "numNotes \<le> n")
    case False
    then have "wrapNote n = n" by (subst wrapNote.simps) (simp only: if_False)
    moreover have "unat n < 48" using False by (simp add: numNotes_def word_le_nat_alt)
    ultimately show ?thesis by (subst octaveFold.simps) simp
  next
    case True
    then have n: "48 \<le> unat n" by (simp add: numNotes_def word_le_nat_alt)
    then have "12 \<le> n" by (simp add: word_le_nat_alt)
    then have u: "unat (n - 12) = unat n - 12" by (simp add: unat_sub)
    have "wrapNote n = wrapNote (n - 12)"
      using True by (subst wrapNote.simps) (simp only: if_True)
    then have "unat (wrapNote n) = octaveFold (unat n - 12)"
      using "1.IH" [OF True] u by simp
    moreover have "octaveFold (unat n) = octaveFold (unat n - 12)"
      using n by (subst octaveFold.simps) simp
    ultimately show ?thesis by simp
  qed
qed

lemma wrapNote_less: "unat (wrapNote n) < 48"
  by (simp add: wrapNote_octaveFold octaveFold_closed)

lemma lockTo_fields [simp]:
  "numOsc (lockTo t i s) = numOsc s" "curOsc (lockTo t i s) = curOsc s"
  "ampOsc (lockTo t i s) = ampOsc s" "edgLen (lockTo t i s) = edgLen s"
  "edgVal (lockTo t i s) = edgVal s" "note' (lockTo t i s) = note' s"
  "pW (lockTo t i s) = pW s" "freeze (lockTo t i s) = freeze s"
  "length (edgIdx (lockTo t i s)) = length (edgIdx s)"
  "length (edgeDC (lockTo t i s)) = length (edgeDC s)"
  by (simp_all add: lockTo_def Let_def)

lemma fold_lockTo_fields [simp]:
  "numOsc (fold (lockTo t) xs s) = numOsc s" "curOsc (fold (lockTo t) xs s) = curOsc s"
  "ampOsc (fold (lockTo t) xs s) = ampOsc s" "edgLen (fold (lockTo t) xs s) = edgLen s"
  "edgVal (fold (lockTo t) xs s) = edgVal s" "note' (fold (lockTo t) xs s) = note' s"
  "pW (fold (lockTo t) xs s) = pW s" "freeze (fold (lockTo t) xs s) = freeze s"
  "length (edgIdx (fold (lockTo t) xs s)) = length (edgIdx s)"
  "length (edgeDC (fold (lockTo t) xs s)) = length (edgeDC s)"
  by (induction xs arbitrary: s; simp)+

lemma shaped_fold_lockTo: "shaped s \<Longrightarrow> shaped (fold (lockTo t) xs s)"
  by (simp add: shaped_def)

lemma periodOf_fold_lockTo [simp]: "periodOf (fold (lockTo t) xs s) i = periodOf s i"
  by (simp add: periodOf_def)

lemma setNote_note:
  assumes "\<not> freeze s" "n \<noteq> NoNote"
  shows "setNote t n s =
       fold (lockTo t) [0..<unat (numOsc s)]
         (calcEdges t (NotePeriods ! unat (wrapNote n)) (s\<lparr>note' := (note' s)[t := wrapNote n]\<rparr>))"
proof -
  have r: "pgm_read_word_near (periods + ucast (push_bit 1 (wrapNote n) :: byte)) =
             NotePeriods ! unat (wrapNote n)"
    by (rule pgm_read_period [OF wrapNote_less])
  show ?thesis unfolding setNote_def Let_def r using assms by simp
qed

text \<open>
  C4. With \<open>freeze\<close> false and a note index \<open>n\<close> other than \<open>NoNote\<close>,
  \<open>setNote(t, n)\<close> stores as the note of slot \<open>t\<close> the index that the loop reaches by
  subtracting 12 while the index is 48 or more. That index is \<open>n\<close> reduced by whole
  octaves until it is below 48 (\<open>n\<close> itself below 48, else \<open>36 + n mod 12\<close>), and the
  period that the slot receives, \<open>edgLen[t][0] + edgLen[t][1]\<close>, is the entry of the note
  table at that index.
\<close>

theorem setNote_wraps_by_octaves:
  assumes "shaped s" "t < MAX_OSC" "\<not> freeze s" "n \<noteq> NoNote" "1 \<le> pW s" "pW s \<le> 128"
  shows "note' (setNote t n s) ! t = wrapNote n
       \<and> unat (wrapNote n) = octaveFold (unat n)
       \<and> octaveFold (unat n) = (if unat n < 48 then unat n else 36 + unat n mod 12)
       \<and> octaveFold (unat n) < length NotePeriods
       \<and> periodOf (setNote t n s) t = unat (NotePeriods ! octaveFold (unat n))"
proof -
  let ?s = "s\<lparr>note' := (note' s)[t := wrapNote n]\<rparr>"
  let ?P = "NotePeriods ! unat (wrapNote n)"
  have sh: "shaped ?s" using assms(1) by (simp add: shaped_def)
  have len: "length NotePeriods = 48" by (simp add: NotePeriods_def)
  have "?P \<in> set NotePeriods" using wrapNote_less [of n] len by simp
  then have P: "1 \<le> unat ?P" "unat ?P \<le> 510" using NotePeriods_range [of ?P] by simp_all
  have w: "unat (pW ?s) \<le> 128" using assms(6) by (simp add: word_le_nat_alt)
  have "periodOf (calcEdges t ?P ?s) t = unat ?P"
    by (rule calcEdges_split(1) [OF sh assms(2) P w])
  then have per: "periodOf (setNote t n s) t = unat ?P"
    using assms(3,4) by (simp add: setNote_note)
  have "note' (setNote t n s) ! t = wrapNote n"
    using assms(3,4) shapedD(3) [OF assms(1,2)] by (simp add: setNote_note)
  then show ?thesis
    using per wrapNote_less [of n] len
    by (simp add: wrapNote_octaveFold [symmetric] octaveFold_closed [symmetric])
qed

theorem setNote_wraps_by_octaves_witness:
  "shaped (reset blank) \<and> (0::nat) < MAX_OSC \<and> \<not> freeze (reset blank) \<and> (100::byte) \<noteq> NoNote
   \<and> 1 \<le> pW (reset blank) \<and> pW (reset blank) \<le> 128
   \<and> note' (setNote 0 100 (reset blank)) ! 0 = 40
   \<and> octaveFold 100 = 40
   \<and> periodOf (setNote 0 100 (reset blank)) 0 = 36"
proof -
  have a: "shaped (reset blank)" by code_simp
  have b: "(0::nat) < MAX_OSC" by (simp add: MAX_OSC_def)
  have c: "\<not> freeze (reset blank)" by code_simp
  have d: "(100::byte) \<noteq> NoNote" by (simp add: NoNote_def)
  have e: "1 \<le> pW (reset blank)" "pW (reset blank) \<le> 128" by code_simp+
  have w: "wrapNote 100 = 40" by code_simp
  have p: "NotePeriods ! 40 = 36" by (simp add: NotePeriods_def)
  have o: "octaveFold 100 = 40" by code_simp
  show ?thesis
    using setNote_wraps_by_octaves [OF a b c d e] a b c d e by (simp add: w o p)
qed

section \<open>Silent slots in the output\<close>

lemma oscTick_fields [simp]:
  "numOsc (fst (oscTick u (s, a))) = numOsc s" "ampOsc (fst (oscTick u (s, a))) = ampOsc s"
  "edgLen (fst (oscTick u (s, a))) = edgLen s" "edgVal (fst (oscTick u (s, a))) = edgVal s"
  "note' (fst (oscTick u (s, a))) = note' s" "pW (fst (oscTick u (s, a))) = pW s"
  "freeze (fst (oscTick u (s, a))) = freeze s"
  "length (edgIdx (fst (oscTick u (s, a)))) = length (edgIdx s)"
  "length (edgeDC (fst (oscTick u (s, a)))) = length (edgeDC s)"
  by (simp_all add: oscTick_def Let_def)

lemma shaped_oscTick: "shaped s \<Longrightarrow> shaped (fst (oscTick u (s, a)))"
  by (simp add: shaped_def)

lemma edgIdx_oscTick:
  "u < length (edgIdx s) \<Longrightarrow> u < length (edgeDC s) \<Longrightarrow>
   edgIdx (fst (oscTick u (s, a))) ! t =
     (if t = u \<and> edgeDC s ! u - 1 = 0 then edgIdx s ! u XOR 1 else edgIdx s ! t)"
  by (simp add: oscTick_def Let_def nth_list_update)

lemma steady_oscTick:
  assumes "shaped s" "u < MAX_OSC" "steady t s"
  shows "steady t (fst (oscTick u (s, a)))"
proof -
  have "edgIdx s ! t XOR 1 = 0 \<or> edgIdx s ! t XOR 1 = 1"
    using assms(3) by (auto simp: steady_def)
  then show ?thesis
    using assms(3) shapedD(1,2) [OF assms(1,2)]
    by (auto simp: steady_def edgIdx_oscTick)
qed


lemma fold_oscTick_keeps:
  assumes "\<forall>u \<in> set us. u < MAX_OSC" "shaped s" "steady t s"
  shows "shaped (fst (fold oscTick us (s, a))) \<and> steady t (fst (fold oscTick us (s, a)))
       \<and> ampOsc (fst (fold oscTick us (s, a))) = ampOsc s
       \<and> numOsc (fst (fold oscTick us (s, a))) = numOsc s"
  using assms
proof (induction us arbitrary: s a)
  case Nil
  then show ?case by simp
next
  case (Cons u us)
  obtain s1 a1 where o: "oscTick u (s, a) = (s1, a1)" by (cases "oscTick u (s, a)")
  then have s1: "s1 = fst (oscTick u (s, a))" by simp
  have "shaped s1" "steady t s1" "ampOsc s1 = ampOsc s" "numOsc s1 = numOsc s"
    using Cons.prems by (simp_all add: s1 shaped_oscTick steady_oscTick)
  moreover have "\<forall>u \<in> set us. u < MAX_OSC" using Cons.prems by simp
  ultimately show ?case using Cons.IH [of s1 a1] o by simp
qed

lemma outputTick_keeps:
  assumes "shaped s" "steady t s"
  shows "shaped (fst (outputTick s)) \<and> steady t (fst (outputTick s))
       \<and> ampOsc (fst (outputTick s)) = ampOsc s \<and> numOsc (fst (outputTick s)) = numOsc s"
proof -
  have "\<forall>u \<in> set [0..<unat (numOsc s)]. u < MAX_OSC" using assms(1) by (simp add: shaped_def)
  then show ?thesis unfolding outputTick_def by (rule fold_oscTick_keeps [OF _ assms])
qed

lemma output_osc_keeps:
  assumes "shaped s" "steady t s"
  shows "shaped (fst (output_osc icnt s)) \<and> steady t (fst (output_osc icnt s))
       \<and> ampOsc (fst (output_osc icnt s)) = ampOsc s
       \<and> numOsc (fst (output_osc icnt s)) = numOsc s"
  using assms
proof (induction icnt arbitrary: s)
  case 0
  then show ?case by simp
next
  case (Suc icnt)
  obtain s1 v where o: "outputTick s = (s1, v)" by (cases "outputTick s")
  then have s1: "s1 = fst (outputTick s)" by simp
  have k: "shaped s1" "steady t s1" "ampOsc s1 = ampOsc s" "numOsc s1 = numOsc s"
    using outputTick_keeps [OF Suc.prems] by (simp_all add: s1)
  show ?case using Suc.IH [OF k(1,2)] k o by (simp add: split_beta)
qed



lemma mute_fields [simp]:
  "numOsc (mute t s) = numOsc s" "ampOsc (mute t s) = ampOsc s"
  "edgIdx (mute t s) = edgIdx s" "edgeDC (mute t s) = edgeDC s" "edgLen (mute t s) = edgLen s"
  by (simp_all add: mute_def)













lemma numOsc_outputTick [simp]: "numOsc (fst (outputTick s)) = numOsc s"
proof -
  have "numOsc (fst (fold oscTick us (s, a))) = numOsc s" for us a
  proof (induction us arbitrary: s a)
    case Nil
    then show ?case by simp
  next
    case (Cons u us)
    obtain s1 a1 where o: "oscTick u (s, a) = (s1, a1)" by (cases "oscTick u (s, a)")
    then have "numOsc s1 = numOsc s" using oscTick_fields(1) [of u s a] by simp
    then show ?case using Cons.IH [of s1 a1] o by simp
  qed
  then show ?thesis by (simp add: outputTick_def)
qed


text \<open>
  \<open>setNumOsc\<close> leaves every active slot with \<open>edgVal[i][0] = ampOsc\<close>.
\<close>

lemma levelStep_fields [simp]:
  "ampOsc (levelStep i s) = ampOsc s" "numOsc (levelStep i s) = numOsc s"
  "length (edgVal (levelStep i s)) = length (edgVal s)"
  by (simp_all add: levelStep_def Let_def)

lemma levelStep_inner:
  "list_all (\<lambda>e. length e = 2) (edgVal s) \<Longrightarrow> list_all (\<lambda>e. length e = 2) (edgVal (levelStep i s))"
  by (simp add: levelStep_def Let_def list_all_put2)

lemma levelStep_edgVal0:
  assumes "i < length (edgVal s)" "list_all (\<lambda>e. length e = 2) (edgVal s)"
  shows "get2 (edgVal (levelStep i s)) j 0 = (if j = i then ampOsc s else get2 (edgVal s) j 0)"
proof -
  have "length (edgVal s ! i) = 2" using assms by (simp add: list_all_length)
  then show ?thesis using assms(1) by (simp add: levelStep_def Let_def get2_put2)
qed

lemma fold_levelStep:
  assumes "\<forall>i \<in> set xs. i < length (edgVal s)" "list_all (\<lambda>e. length e = 2) (edgVal s)"
  shows "get2 (edgVal (fold levelStep xs s)) j 0 =
           (if j \<in> set xs then ampOsc s else get2 (edgVal s) j 0)
       \<and> ampOsc (fold levelStep xs s) = ampOsc s \<and> numOsc (fold levelStep xs s) = numOsc s"
  using assms
proof (induction xs arbitrary: s)
  case Nil
  then show ?case by simp
next
  case (Cons x xs)
  have x: "x < length (edgVal s)" using Cons.prems by simp
  have "\<forall>i \<in> set xs. i < length (edgVal (levelStep x s))" using Cons.prems by simp
  moreover have "list_all (\<lambda>e. length e = 2) (edgVal (levelStep x s))"
    by (rule levelStep_inner [OF Cons.prems(2)])
  ultimately have IH: "get2 (edgVal (fold levelStep xs (levelStep x s))) j 0 =
           (if j \<in> set xs then ampOsc (levelStep x s) else get2 (edgVal (levelStep x s)) j 0)
       \<and> ampOsc (fold levelStep xs (levelStep x s)) = ampOsc (levelStep x s)
       \<and> numOsc (fold levelStep xs (levelStep x s)) = numOsc (levelStep x s)"
    by (rule Cons.IH)
  show ?case using IH levelStep_edgVal0 [OF x Cons.prems(2), of j] by auto
qed

lemma fold_levelStep_active:
  assumes "unat (numOsc S) \<le> length (edgVal S)" "list_all (\<lambda>e. length e = 2) (edgVal S)"
  shows "numOsc (fold levelStep [0..<unat (numOsc S)] S) = numOsc S"
    and "i < unat (numOsc S) \<Longrightarrow>
           get2 (edgVal (fold levelStep [0..<unat (numOsc S)] S)) i 0 =
             ampOsc (fold levelStep [0..<unat (numOsc S)] S)"
proof -
  have b: "\<forall>i \<in> set [0..<unat (numOsc S)]. i < length (edgVal S)" using assms(1) by simp
  note r = fold_levelStep [OF b assms(2), of i]
  show "numOsc (fold levelStep [0..<unat (numOsc S)] S) = numOsc S" using r by simp
  show "get2 (edgVal (fold levelStep [0..<unat (numOsc S)] S)) i 0 =
             ampOsc (fold levelStep [0..<unat (numOsc S)] S)" if "i < unat (numOsc S)"
    using r that by simp
qed

lemma setNumOsc_fold:
  "\<exists>S. setNumOsc n s = fold levelStep [0..<unat (numOsc S)] S \<and> edgVal S = edgVal s
       \<and> unat (numOsc S) \<le> MAX_OSC"
proof -
  have f: "(\<lambda>i s.
                 let s = s\<lparr>edgVal := put2 (edgVal s) i 0 (ampOsc s)\<rparr>
                 in s\<lparr>edgVal := put2 (edgVal s) i 1
                        (if get2 (edgLen s) i 0 \<noteq> 0 \<and> get2 (edgLen s) i 1 \<noteq> 0
                         then - ampOsc s else ampOsc s)\<rparr>) = levelStep"
    by (intro ext) (simp add: levelStep_def)
  define n1 :: byte where "n1 = (if n = 0 then 1 else n)"
  define n2 :: byte where "n2 = (if unat n1 > MAX_OSC then of_nat MAX_OSC else n1)"
  define s1 where "s1 = s\<lparr>numOsc := n2\<rparr>"
  define s2 where "s2 = (if curOsc s1 \<ge> numOsc s1 then s1\<lparr>curOsc := numOsc s1 - 1\<rparr> else s1)"
  define s3 where "s3 = s2\<lparr>ampOsc := 127 div numOsc s2\<rparr>"
  have "setNumOsc n s = fold levelStep [0..<unat (numOsc s3)] s3"
    unfolding setNumOsc_def f by (simp add: Let_def n1_def n2_def s1_def s2_def s3_def)
  moreover have "edgVal s3 = edgVal s" by (simp add: s3_def s2_def s1_def)
  moreover have "numOsc s3 = n2" by (simp add: s3_def s2_def s1_def)
  moreover have "unat n2 \<le> MAX_OSC" by (simp add: n2_def MAX_OSC_def)
  ultimately show ?thesis by auto
qed

lemma setNumOsc_levels:
  assumes "length (edgVal s) = MAX_OSC" "list_all (\<lambda>e. length e = 2) (edgVal s)"
    and "i < unat (numOsc (setNumOsc n s))"
  shows "get2 (edgVal (setNumOsc n s)) i 0 = ampOsc (setNumOsc n s)"
proof -
  obtain S where e: "setNumOsc n s = fold levelStep [0..<unat (numOsc S)] S"
    and v: "edgVal S = edgVal s" and N: "unat (numOsc S) \<le> MAX_OSC"
    using setNumOsc_fold [of n s] by blast
  have l: "unat (numOsc S) \<le> length (edgVal S)" using N assms(1) v by simp
  have i: "list_all (\<lambda>e. length e = 2) (edgVal S)" using assms(2) v by simp
  have "i < unat (numOsc S)" using assms(3) fold_levelStep_active(1) [OF l i] by (simp add: e)
  then show ?thesis unfolding e by (rule fold_levelStep_active(2) [OF l i])
qed




section \<open>Phase lock\<close>

lemma phaseOf_lockTo:
  assumes "t < length (edgIdx s)" "t < length (edgeDC s)"
  shows "phaseOf (lockTo t i s) j =
           (if j = t \<and> i \<noteq> t \<and> note' s ! t = note' s ! i then phaseOf s i else phaseOf s j)"
  using assms by (auto simp: phaseOf_def lockTo_def Let_def nth_list_update)

lemma fold_lockTo_other:
  assumes "t < length (edgIdx s)" "t < length (edgeDC s)" "j \<noteq> t"
  shows "phaseOf (fold (lockTo t) xs s) j = phaseOf s j"
  using assms
proof (induction xs arbitrary: s)
  case Nil
  then show ?case by simp
next
  case (Cons x xs)
  have "phaseOf (fold (lockTo t) xs (lockTo t x s)) j = phaseOf (lockTo t x s) j"
    using Cons.prems by (intro Cons.IH) simp_all
  then show ?case using Cons.prems by (simp add: phaseOf_lockTo)
qed

lemma phaseOf_calcEdges [simp]: "phaseOf (calcEdges t P s) i = phaseOf s i"
  by (simp add: phaseOf_def)

lemma phaseOf_note_update [simp]: "phaseOf (s\<lparr>note' := ns\<rparr>) i = phaseOf s i"
  by (simp add: phaseOf_def)

lemma lastOther_SomeD:
  "lastOther P N = Some c \<Longrightarrow> c < N \<and> P c \<and> (\<forall>i. c < i \<and> i < N \<longrightarrow> \<not> P i)"
proof (induction N)
  case 0
  then show ?case by simp
next
  case (Suc N)
  show ?case
  proof (cases "P N")
    case True
    then have "c = N" using Suc.prems by simp
    then show ?thesis using True by auto
  next
    case False
    then have "lastOther P N = Some c" using Suc.prems by simp
    then have IH: "c < N \<and> P c \<and> (\<forall>i. c < i \<and> i < N \<longrightarrow> \<not> P i)" by (rule Suc.IH)
    have "\<not> P i" if "c < i" "i < Suc N" for i
    proof (cases "i = N")
      case True
      then show ?thesis using False by simp
    next
      case False
      then have "i < N" using that by simp
      then show ?thesis using IH that by simp
    qed
    then show ?thesis using IH by simp
  qed
qed

lemma lastOther_SomeI:
  "c < N \<Longrightarrow> P c \<Longrightarrow> (\<forall>i. c < i \<and> i < N \<longrightarrow> \<not> P i) \<Longrightarrow> lastOther P N = Some c"
proof (induction N)
  case 0
  then show ?case by simp
next
  case (Suc N)
  show ?case
  proof (cases "c = N")
    case True
    then show ?thesis using Suc.prems by simp
  next
    case False
    then have c: "c < N" using Suc.prems by simp
    then have "\<not> P N" using Suc.prems(3) by simp
    moreover have "lastOther P N = Some c" using c Suc.prems by (intro Suc.IH) simp_all
    ultimately show ?thesis by simp
  qed
qed

lemma lastOther_Some_iff:
  "lastOther P N = Some c \<longleftrightarrow> c < N \<and> P c \<and> (\<forall>i. c < i \<and> i < N \<longrightarrow> \<not> P i)"
  using lastOther_SomeD [of P N c] lastOther_SomeI [of c N P] by blast

lemma lastOther_cong: "(\<And>i. i < N \<Longrightarrow> P i = Q i) \<Longrightarrow> lastOther P N = lastOther Q N"
  by (induction N) auto

lemma lastOther_insert:
  assumes "x < N"
  shows "lastOther (\<lambda>i. i = x \<or> Q i) N =
           (case lastOther Q N of None \<Rightarrow> Some x | Some c \<Rightarrow> if x < c then Some c else Some x)"
  using assms
proof (induction N)
  case 0
  then show ?case by simp
next
  case (Suc N)
  show ?case
  proof (cases "Q N")
    case True
    then show ?thesis using Suc.prems by auto
  next
    case q: False
    show ?thesis
    proof (cases "x = N")
      case True
      have "\<not> x < c" if "lastOther Q N = Some c" for c
        using lastOther_SomeD [OF that] True by simp
      then show ?thesis using True q by (simp split: option.splits)
    next
      case False
      then have "x < N" using Suc.prems by simp
      then have "lastOther (\<lambda>i. i = x \<or> Q i) N =
           (case lastOther Q N of None \<Rightarrow> Some x | Some c \<Rightarrow> if x < c then Some c else Some x)"
        by (rule Suc.IH)
      then show ?thesis using False q by simp
    qed
  qed
qed

lemma fold_lockTo_last:
  assumes "t < length (edgIdx s)" "t < length (edgeDC s)"
  shows "phaseOf (fold (lockTo t) [0..<N] s) t =
           (case lastOther (\<lambda>i. i \<noteq> t \<and> note' s ! t = note' s ! i) N of
              None \<Rightarrow> phaseOf s t | Some i \<Rightarrow> phaseOf s i)"
proof (induction N)
  case 0
  then show ?case by simp
next
  case (Suc N)
  let ?f = "fold (lockTo t) [0..<N] s"
  have len: "t < length (edgIdx ?f)" "t < length (edgeDC ?f)" using assms by simp_all
  have oth: "N \<noteq> t \<Longrightarrow> phaseOf ?f N = phaseOf s N"
    by (rule fold_lockTo_other [OF assms])
  have "phaseOf (fold (lockTo t) [0..<Suc N] s) t = phaseOf (lockTo t N ?f) t" by simp
  also have "\<dots> = (if N \<noteq> t \<and> note' s ! t = note' s ! N then phaseOf s N else phaseOf ?f t)"
    using oth by (simp add: phaseOf_lockTo [OF len])
  finally have e: "phaseOf (fold (lockTo t) [0..<Suc N] s) t =
      (if N \<noteq> t \<and> note' s ! t = note' s ! N then phaseOf s N else phaseOf ?f t)" .
  show ?case
  proof (cases "N \<noteq> t \<and> note' s ! t = note' s ! N")
    case True
    then show ?thesis unfolding e by simp
  next
    case False
    then show ?thesis unfolding e using Suc by auto
  qed
qed

lemma setNote_last:
  assumes sh: "shaped s" and t: "t < MAX_OSC" and fr: "\<not> freeze s" and n: "n \<noteq> NoNote"
  shows "phaseOf (setNote t n s) t =
           (case lastOther (\<lambda>i. i \<noteq> t \<and> note' s ! i = wrapNote n) (unat (numOsc s)) of
              None \<Rightarrow> phaseOf s t | Some i \<Rightarrow> phaseOf s i)"
    and "j \<noteq> t \<Longrightarrow> phaseOf (setNote t n s) j = phaseOf s j"
    and "note' (setNote t n s) = (note' s)[t := wrapNote n]"
    and "numOsc (setNote t n s) = numOsc s" and "freeze (setNote t n s) = freeze s"
    and "shaped (setNote t n s)"
proof -
  let ?c = "calcEdges t (NotePeriods ! unat (wrapNote n)) (s\<lparr>note' := (note' s)[t := wrapNote n]\<rparr>)"
  have e: "setNote t n s = fold (lockTo t) [0..<unat (numOsc s)] ?c"
    by (rule setNote_note [OF fr n])
  have "shaped (s\<lparr>note' := (note' s)[t := wrapNote n]\<rparr>)" using sh by (simp add: shaped_def)
  then have shc: "shaped ?c" by (rule shaped_calcEdges)
  have len: "t < length (edgIdx ?c)" "t < length (edgeDC ?c)"
    using shapedD(1,2) [OF shc t] by simp_all
  have nt: "note' ?c ! t = wrapNote n" using shapedD(3) [OF sh t] by simp
  have ni: "note' ?c ! i = note' s ! i" if "i \<noteq> t" for i using that by simp
  have "lastOther (\<lambda>i. i \<noteq> t \<and> note' ?c ! t = note' ?c ! i) (unat (numOsc s)) =
        lastOther (\<lambda>i. i \<noteq> t \<and> note' s ! i = wrapNote n) (unat (numOsc s))"
    using nt ni by (intro lastOther_cong) auto
  then show "phaseOf (setNote t n s) t =
           (case lastOther (\<lambda>i. i \<noteq> t \<and> note' s ! i = wrapNote n) (unat (numOsc s)) of
              None \<Rightarrow> phaseOf s t | Some i \<Rightarrow> phaseOf s i)"
    unfolding e using fold_lockTo_last [OF len, of "unat (numOsc s)"]
    by (simp only: phaseOf_calcEdges phaseOf_note_update)
  show "phaseOf (setNote t n s) j = phaseOf s j" if "j \<noteq> t"
    unfolding e using fold_lockTo_other [OF len that] by simp
  show "note' (setNote t n s) = (note' s)[t := wrapNote n]" by (simp add: e)
  show "numOsc (setNote t n s) = numOsc s" "freeze (setNote t n s) = freeze s"
    by (simp_all add: e)
  show "shaped (setNote t n s)" unfolding e by (rule shaped_fold_lockTo [OF shc])
qed

lemma setNote_twice_phase:
  assumes sh: "shaped s" and a: "a < unat (numOsc s)" and b: "b < MAX_OSC"
    and ab: "a \<noteq> b" and fr: "\<not> freeze s" and n: "n \<noteq> NoNote"
  shows "phaseOf (setNote b n (setNote a n s)) a =
           (case lastOther (\<lambda>i. i \<noteq> a \<and> note' s ! i = wrapNote n) (unat (numOsc s)) of
              None \<Rightarrow> phaseOf s a | Some i \<Rightarrow> phaseOf s i)"
    and "phaseOf (setNote b n (setNote a n s)) b =
           (case lastOther (\<lambda>i. i \<noteq> a \<and> i \<noteq> b \<and> note' s ! i = wrapNote n) (unat (numOsc s)) of
              None \<Rightarrow> phaseOf (setNote b n (setNote a n s)) a
            | Some c \<Rightarrow> if a < c then phaseOf s c else phaseOf (setNote b n (setNote a n s)) a)"
proof -
  let ?N = "unat (numOsc s)" and ?m = "wrapNote n"
  let ?s1 = "setNote a n s"
  let ?s2 = "setNote b n ?s1"
  let ?Q = "\<lambda>i. i \<noteq> a \<and> i \<noteq> b \<and> note' s ! i = ?m"
  have a4: "a < MAX_OSC" using a sh by (simp add: shaped_def)
  note s1 = setNote_last [OF sh a4 fr n]
  have fr1: "\<not> freeze ?s1" using s1(5) fr by simp
  note s2 = setNote_last [OF s1(6) b fr1 n]
  have la: "a < length (note' s)" by (rule shapedD(3) [OF sh a4])
  have pa: "phaseOf ?s2 a = phaseOf ?s1 a" using s2(2) [of a] ab by simp
  show "phaseOf ?s2 a =
           (case lastOther (\<lambda>i. i \<noteq> a \<and> note' s ! i = ?m) ?N of
              None \<Rightarrow> phaseOf s a | Some i \<Rightarrow> phaseOf s i)"
    using pa s1(1) by simp
  have "lastOther (\<lambda>i. i \<noteq> b \<and> note' ?s1 ! i = ?m) ?N = lastOther (\<lambda>i. i = a \<or> ?Q i) ?N"
    using ab la by (intro lastOther_cong) (auto simp: s1(3) nth_list_update)
  also have "\<dots> = (case lastOther ?Q ?N of None \<Rightarrow> Some a
                     | Some c \<Rightarrow> if a < c then Some c else Some a)"
    by (rule lastOther_insert [OF a])
  finally have L2: "lastOther (\<lambda>i. i \<noteq> b \<and> note' ?s1 ! i = ?m) (unat (numOsc ?s1)) =
      (case lastOther ?Q ?N of None \<Rightarrow> Some a | Some c \<Rightarrow> if a < c then Some c else Some a)"
    by (simp add: s1(4))
  have pc: "phaseOf ?s1 c = phaseOf s c" if "lastOther ?Q ?N = Some c" for c
    using lastOther_SomeD [OF that] s1(2) [of c] by simp
  show "phaseOf ?s2 b =
           (case lastOther ?Q ?N of
              None \<Rightarrow> phaseOf ?s2 a
            | Some c \<Rightarrow> if a < c then phaseOf s c else phaseOf ?s2 a)"
    unfolding s2(1) L2 using pa pc by (simp split: option.splits)
qed

text \<open>
  C6, as the sketch has it. Let two different slots \<open>a\<close> and \<open>b\<close> of a section, \<open>a\<close> an
  active slot (below \<open>numOsc\<close>), be set to the same note \<open>n\<close> (not \<open>NoNote\<close>, \<open>freeze\<close>
  false) by \<open>setNote(a, n)\<close> and then \<open>setNote(b, n)\<close>. After both calls the two slots
  have the same edge index and the same downcounter, except in exactly one situation:
  slot \<open>b\<close> is active and held the wrapped note already, the last other active slot \<open>c\<close>
  that holds it (other than \<open>a\<close> and \<open>b\<close>) lies between the two, \<open>a < c < b\<close>, and \<open>c\<close> and
  \<open>b\<close> were out of phase. In that situation, and only then, the two slots end out of
  phase.
\<close>

theorem setNote_twice_phase_locked:
  assumes sh: "shaped s" and a: "a < unat (numOsc s)" and b: "b < MAX_OSC"
    and ab: "a \<noteq> b" and fr: "\<not> freeze s" and n: "n \<noteq> NoNote"
  shows "(edgIdx (setNote b n (setNote a n s)) ! a = edgIdx (setNote b n (setNote a n s)) ! b
          \<and> edgeDC (setNote b n (setNote a n s)) ! a = edgeDC (setNote b n (setNote a n s)) ! b)
       \<longleftrightarrow>
         \<not> (b < unat (numOsc s) \<and> note' s ! b = wrapNote n
            \<and> (\<exists>c. lastOther (\<lambda>i. i \<noteq> a \<and> i \<noteq> b \<and> note' s ! i = wrapNote n)
                      (unat (numOsc s)) = Some c
                  \<and> a < c \<and> c < b
                  \<and> \<not> (edgIdx s ! c = edgIdx s ! b \<and> edgeDC s ! c = edgeDC s ! b)))"
proof -
  let ?N = "unat (numOsc s)" and ?m = "wrapNote n"
  let ?s2 = "setNote b n (setNote a n s)"
  let ?Q = "\<lambda>i. i \<noteq> a \<and> i \<noteq> b \<and> note' s ! i = ?m"
  let ?P1 = "\<lambda>i. i \<noteq> a \<and> note' s ! i = ?m"
  note ph = setNote_twice_phase [OF sh a b ab fr n]
  have locked: "(edgIdx ?s2 ! a = edgIdx ?s2 ! b \<and> edgeDC ?s2 ! a = edgeDC ?s2 ! b)
                  = (phaseOf ?s2 a = phaseOf ?s2 b)"
    by (auto simp: phaseOf_def)
  have differ: "(\<not> (edgIdx s ! c = edgIdx s ! b \<and> edgeDC s ! c = edgeDC s ! b))
                  = (phaseOf s c \<noteq> phaseOf s b)" for c
    by (auto simp: phaseOf_def)
  show ?thesis
  proof (cases "lastOther ?Q ?N")
    case None
    then have "phaseOf ?s2 b = phaseOf ?s2 a" using ph(2) by simp
    then show ?thesis unfolding locked using None by simp
  next
    case (Some c)
    note c = lastOther_SomeD [OF Some]
    show ?thesis
    proof (cases "a < c")
      case False
      then have "phaseOf ?s2 b = phaseOf ?s2 a" using ph(2) Some by simp
      then show ?thesis unfolding locked using Some False by simp
    next
      case ac: True
      then have pb: "phaseOf ?s2 b = phaseOf s c" using ph(2) Some by simp
      show ?thesis
      proof (cases "b < ?N \<and> note' s ! b = ?m")
        case False
        then have "lastOther ?P1 ?N = lastOther ?Q ?N"
          by (intro lastOther_cong) auto
        then have "phaseOf ?s2 a = phaseOf s c" using ph(1) Some by simp
        then show ?thesis unfolding locked using pb False by auto
      next
        case nb: True
        then have bN: "b < ?N" by simp
        have "lastOther ?P1 ?N = lastOther (\<lambda>i. i = b \<or> ?Q i) ?N"
          using nb ab by (intro lastOther_cong) auto
        also have "\<dots> = (if b < c then Some c else Some b)"
          using lastOther_insert [OF bN, of ?Q] Some by simp
        finally have L1: "lastOther ?P1 ?N = (if b < c then Some c else Some b)" .
        show ?thesis
        proof (cases "b < c")
          case True
          then have "phaseOf ?s2 a = phaseOf s c" using ph(1) L1 by simp
          then show ?thesis unfolding locked using pb Some True by simp
        next
          case False
          then have cb: "c < b" using c by auto
          have "phaseOf ?s2 a = phaseOf s b" using ph(1) L1 False by simp
          then have "(phaseOf ?s2 a = phaseOf ?s2 b) = (phaseOf s c = phaseOf s b)"
            using pb by auto
          then show ?thesis unfolding locked differ using Some nb ac cb by simp
        qed
      qed
    qed
  qed
qed

lemma unison_eval:
  "unison = \<lparr>numOsc = 3, curOsc = 0, ampOsc = 42, edgIdx = [0, 0, 0, 0],
      edgeDC = [0, 135, 135, 0], edgLen = [[0, 0], [135, 135], [135, 135], [0, 0]],
      edgVal = [[42, 42], [42, 214], [42, 214], [0, 127]],
      note' = [255, 5, 5, 255], pW = 128, freeze = False\<rparr>"
  by code_simp

lemma detuned_eval:
  "detuned = \<lparr>numOsc = 3, curOsc = 0, ampOsc = 42, edgIdx = [0, 0, 0, 0],
      edgeDC = [0, 135, 130, 0], edgLen = [[0, 0], [135, 135], [135, 135], [0, 0]],
      edgVal = [[42, 42], [42, 214], [42, 214], [0, 127]],
      note' = [255, 5, 5, 255], pW = 128, freeze = False\<rparr>"
  by code_simp

theorem setNote_twice_phase_locked_witness:
  "shaped unison \<and> 0 < unat (numOsc unison) \<and> 2 < unat (numOsc unison) \<and> \<not> freeze unison
   \<and> (1::nat) < MAX_OSC \<and> (2::nat) < MAX_OSC \<and> (5::byte) \<noteq> NoNote
   \<and> edgeDC unison = [0, 135, 135, 0]
   \<and> edgIdx (setNote 2 5 (setNote 0 5 unison)) ! 0 = edgIdx (setNote 2 5 (setNote 0 5 unison)) ! 2
   \<and> edgeDC (setNote 2 5 (setNote 0 5 unison)) ! 0 = edgeDC (setNote 2 5 (setNote 0 5 unison)) ! 2
   \<and> shaped detuned \<and> 0 < unat (numOsc detuned) \<and> 1 < unat (numOsc detuned)
   \<and> 2 < unat (numOsc detuned) \<and> \<not> freeze detuned
   \<and> edgeDC detuned = [0, 135, 130, 0]
   \<and> edgIdx (setNote 1 5 (setNote 0 5 detuned)) ! 0 = edgIdx (setNote 1 5 (setNote 0 5 detuned)) ! 1
   \<and> edgeDC (setNote 1 5 (setNote 0 5 detuned)) ! 0 = edgeDC (setNote 1 5 (setNote 0 5 detuned)) ! 1
   \<and> (edgIdx (setNote 2 5 (setNote 0 5 detuned)) ! 0 = edgIdx (setNote 2 5 (setNote 0 5 detuned)) ! 2
        \<and> edgeDC (setNote 2 5 (setNote 0 5 detuned)) ! 0 = edgeDC (setNote 2 5 (setNote 0 5 detuned)) ! 2)
       = False"
proof -
  have n: "(5::byte) \<noteq> NoNote" by (simp add: NoNote_def)
  have b1: "(1::nat) < MAX_OSC" and b2: "(2::nat) < MAX_OSC" by (simp_all add: MAX_OSC_def)
  have w: "wrapNote 5 = 5" by code_simp
  have shu: "shaped unison" by code_simp
  have Nu: "unat (numOsc unison) = 3" by (simp add: unison_eval)
  have fu: "\<not> freeze unison" by (simp add: unison_eval)
  have du: "edgeDC unison = [0, 135, 135, 0]" by (simp add: unison_eval)
  have shd: "shaped detuned" by code_simp
  have Nd: "unat (numOsc detuned) = 3" by (simp add: detuned_eval)
  have fd: "\<not> freeze detuned" by (simp add: detuned_eval)
  have dd: "edgeDC detuned = [0, 135, 130, 0]" by (simp add: detuned_eval)
  have lu: "lastOther (\<lambda>i. i \<noteq> 0 \<and> i \<noteq> 2 \<and> note' unison ! i = wrapNote 5) (unat (numOsc unison))
              = Some 1" by code_simp
  have l1: "lastOther (\<lambda>i. i \<noteq> 0 \<and> i \<noteq> 1 \<and> note' detuned ! i = wrapNote 5) (unat (numOsc detuned))
              = Some 2" by code_simp
  have l2: "lastOther (\<lambda>i. i \<noteq> 0 \<and> i \<noteq> 2 \<and> note' detuned ! i = wrapNote 5) (unat (numOsc detuned))
              = Some 1" by code_simp
  have pu: "edgIdx unison ! 1 = edgIdx unison ! 2 \<and> edgeDC unison ! 1 = edgeDC unison ! 2"
    by (simp add: unison_eval)
  have pd: "\<not> (edgIdx detuned ! 1 = edgIdx detuned ! 2 \<and> edgeDC detuned ! 1 = edgeDC detuned ! 2)"
    by (simp add: detuned_eval)
  have nb: "note' detuned ! 2 = wrapNote 5" by (simp add: detuned_eval w)
  have a0u: "0 < unat (numOsc unison)" and a2u: "2 < unat (numOsc unison)" by (simp_all add: Nu)
  have a0d: "0 < unat (numOsc detuned)" and a1d: "1 < unat (numOsc detuned)"
    and a2d: "2 < unat (numOsc detuned)" by (simp_all add: Nd)
  have r1: "edgIdx (setNote 2 5 (setNote 0 5 unison)) ! 0 = edgIdx (setNote 2 5 (setNote 0 5 unison)) ! 2
          \<and> edgeDC (setNote 2 5 (setNote 0 5 unison)) ! 0 = edgeDC (setNote 2 5 (setNote 0 5 unison)) ! 2"
    using setNote_twice_phase_locked [OF shu a0u b2 _ fu n] lu pu a2u by simp
  have r2: "edgIdx (setNote 1 5 (setNote 0 5 detuned)) ! 0 = edgIdx (setNote 1 5 (setNote 0 5 detuned)) ! 1
          \<and> edgeDC (setNote 1 5 (setNote 0 5 detuned)) ! 0 = edgeDC (setNote 1 5 (setNote 0 5 detuned)) ! 1"
    using setNote_twice_phase_locked [OF shd a0d b1 _ fd n] l1 a1d by simp
  have r3: "(edgIdx (setNote 2 5 (setNote 0 5 detuned)) ! 0 = edgIdx (setNote 2 5 (setNote 0 5 detuned)) ! 2
        \<and> edgeDC (setNote 2 5 (setNote 0 5 detuned)) ! 0 = edgeDC (setNote 2 5 (setNote 0 5 detuned)) ! 2)
       = False"
    using setNote_twice_phase_locked [OF shd a0d b2 _ fd n] l2 pd nb a2d by simp
  show ?thesis
    using shu a0u a2u fu b1 b2 n du r1 shd a0d a1d a2d fd dd r2 r3 by (intro conjI) simp_all
qed

text \<open>
  C6 as stated fails. In \<open>detuned\<close> slots 1 and 2 hold note 5 with downcounters 135 and
  130. \<open>setNote(0, 5)\<close> locks slot 0 to the last slot with that note, slot 2
  (downcounter 130); \<open>setNote(2, 5)\<close> then locks slot 2 to the last other slot with that
  note, slot 1 (downcounter 135). So slots 0 and 2, set to the same note one after the
  other, end with downcounters 130 and 135.
\<close>

theorem setNote_twice_not_phase_locked:
  "numOsc detuned = 3 \<and> \<not> freeze detuned \<and> (5::byte) \<noteq> NoNote
   \<and> note' detuned = [255, 5, 5, 255] \<and> edgeDC detuned = [0, 135, 130, 0]
   \<and> edgeDC (setNote 2 5 (setNote 0 5 detuned)) ! 0 = 130
   \<and> edgeDC (setNote 2 5 (setNote 0 5 detuned)) ! 2 = 135
   \<and> edgeDC (setNote 2 5 (setNote 0 5 detuned)) ! 0 \<noteq> edgeDC (setNote 2 5 (setNote 0 5 detuned)) ! 2"
  by code_simp

section \<open>Setting the phase\<close>

lemma normPhase_Some:
  assumes "period \<noteq> 0"
  shows "normPhase phase period = Some (phase mod period)"
proof (induction "unat phase" arbitrary: phase rule: less_induct)
  case less
  have pos: "0 < unat period" using assms by (simp add: unat_gt_0)
  show ?case
  proof (cases "period \<le> phase")
    case True
    then have u: "unat (phase - period) = unat phase - unat period" by (simp add: unat_sub)
    have le: "unat period \<le> unat phase" using True by (simp add: word_le_nat_alt)
    then have "unat (phase - period) < unat phase" using u pos by simp
    then have "normPhase (phase - period) period = Some ((phase - period) mod period)"
      by (rule less.hyps)
    moreover have "(phase - period) mod period = phase mod period"
    proof -
      have "unat ((phase - period) mod period) = (unat phase - unat period) mod unat period"
        by (simp add: unat_mod u)
      also have "\<dots> = unat phase mod unat period" using le by (simp add: le_mod_geq)
      also have "\<dots> = unat (phase mod period)" by (simp add: unat_mod)
      finally show ?thesis by (simp only: word_unat_eq_iff)
    qed
    moreover have "normPhase phase period = normPhase (phase - period) period"
      using True by (subst normPhase.simps) simp
    ultimately show ?thesis by simp
  next
    case False
    then have "unat phase < unat period" by (simp add: word_le_nat_alt)
    then have "unat (phase mod period) = unat phase" by (simp add: unat_mod)
    then have "phase mod period = phase" by (simp only: word_unat_eq_iff)
    moreover have "normPhase phase period = Some phase"
      using False by (subst normPhase.simps) simp
    ultimately show ?thesis by simp
  qed
qed

lemma normPhase_Some_nonzero:
  assumes a: "normPhase phase period = Some y"
  shows "period \<noteq> 0"
proof (rule normPhase.raw_induct [where P = "\<lambda>_ period _. period \<noteq> 0", OF _ a])
  fix f :: "word16 \<Rightarrow> word16 \<Rightarrow> word16 option" and phase period y :: word16
  assume IH: "\<And>p b y. f p b = Some y \<Longrightarrow> b \<noteq> 0"
    and st: "(if period \<le> phase then f (phase - period) period else Some phase) = Some y"
  show "period \<noteq> 0"
  proof (cases "period \<le> phase")
    case True
    then have "f (phase - period) period = Some y" using st by simp
    then show ?thesis by (rule IH)
  next
    case False
    then show ?thesis by auto
  qed
qed

lemma normPhase_None: "normPhase phase 0 = None"
proof (cases "normPhase phase 0")
  case None
  then show ?thesis .
next
  case (Some y)
  then show ?thesis using normPhase_Some_nonzero [of phase 0 y] by simp
qed

lemma oscTick_atPhase:
  assumes "t < length (edgIdx s)" "t < length (edgeDC s)"
  shows "fst (oscTick t (atPhase t e d s, a)) =
           (if d - 1 = 0 then atPhase t (e XOR 1) (get2 (edgLen s) t (unat (e XOR 1))) s
            else atPhase t e (d - 1) s)"
  using assms by (simp add: oscTick_def atPhase_def Let_def)

lemma byte_of_nat_pred: "1 \<le> n \<Longrightarrow> (of_nat n :: byte) - 1 = of_nat (n - 1)"
  by simp

lemma byte_of_nat_eq_0: "n < 256 \<Longrightarrow> (of_nat n :: byte) = 0 \<longleftrightarrow> n = 0"
  by (simp add: word_unat_eq_iff unat_of_nat)

lemma runSlot_Suc: "runSlot t (Suc k) s = fst (oscTick t (runSlot t k s, 0))"
  by (simp add: runSlot_def)

lemma runSlot_edgeStart:
  assumes sh: "shaped s" and t: "t < MAX_OSC"
    and k: "k < unat (get2 (edgLen s) t 0) + unat (get2 (edgLen s) t 1)"
  shows "runSlot t k (edgeStart t s) =
           atPhase t (if k < unat (get2 (edgLen s) t 0) then 0 else 1)
             (of_nat (if k < unat (get2 (edgLen s) t 0) then unat (get2 (edgLen s) t 0) - k
                      else unat (get2 (edgLen s) t 0) + unat (get2 (edgLen s) t 1) - k)) s"
  using k
proof (induction k)
  case 0
  show ?case by (simp add: runSlot_def edgeStart_def unat_gt_0)
next
  case (Suc k)
  let ?L0 = "get2 (edgLen s) t 0" and ?L1 = "get2 (edgLen s) t 1"
  note len = shapedD(1,2) [OF sh t]
  have b: "unat ?L0 \<le> 255" "unat ?L1 \<le> 255" by (rule unat_byte_le)+
  have IH: "runSlot t k (edgeStart t s) =
           atPhase t (if k < unat ?L0 then 0 else 1)
             (of_nat (if k < unat ?L0 then unat ?L0 - k else unat ?L0 + unat ?L1 - k)) s"
    using Suc by simp
  show ?case
  proof (cases "k < unat ?L0")
    case True
    have r: "runSlot t k (edgeStart t s) = atPhase t 0 (of_nat (unat ?L0 - k)) s"
      using IH True by simp
    have step: "runSlot t (Suc k) (edgeStart t s) =
        (if (of_nat (unat ?L0 - k) :: byte) - 1 = 0 then atPhase t 1 ?L1 s
         else atPhase t 0 (of_nat (unat ?L0 - k) - 1) s)"
      unfolding runSlot_Suc r oscTick_atPhase [OF len] by simp
    have d: "(of_nat (unat ?L0 - k) :: byte) - 1 = of_nat (unat ?L0 - Suc k)"
      using True by (simp add: byte_of_nat_pred)
    have z: "((of_nat (unat ?L0 - Suc k) :: byte) = 0) = (unat ?L0 - Suc k = 0)"
      using b by (intro byte_of_nat_eq_0) simp
    show ?thesis
    proof (cases "unat ?L0 = Suc k")
      case e: True
      have "runSlot t (Suc k) (edgeStart t s) = atPhase t 1 ?L1 s"
        unfolding step d z using e by simp
      moreover have "(of_nat (unat ?L0 + unat ?L1 - Suc k) :: byte) = ?L1"
        unfolding e by simp
      ultimately show ?thesis using e by simp
    next
      case False
      then have lt: "Suc k < unat ?L0" using True by simp
      have "runSlot t (Suc k) (edgeStart t s) = atPhase t 0 (of_nat (unat ?L0 - Suc k)) s"
        unfolding step d z using lt by simp
      then show ?thesis using lt by simp
    qed
  next
    case False
    have r: "runSlot t k (edgeStart t s) = atPhase t 1 (of_nat (unat ?L0 + unat ?L1 - k)) s"
      using IH False by simp
    have step: "runSlot t (Suc k) (edgeStart t s) =
        (if (of_nat (unat ?L0 + unat ?L1 - k) :: byte) - 1 = 0 then atPhase t 0 ?L0 s
         else atPhase t 1 (of_nat (unat ?L0 + unat ?L1 - k) - 1) s)"
      unfolding runSlot_Suc r oscTick_atPhase [OF len] by simp
    have d: "(of_nat (unat ?L0 + unat ?L1 - k) :: byte) - 1 = of_nat (unat ?L0 + unat ?L1 - Suc k)"
      using Suc.prems by (simp add: byte_of_nat_pred)
    have z: "((of_nat (unat ?L0 + unat ?L1 - Suc k) :: byte) = 0) = (unat ?L0 + unat ?L1 - Suc k = 0)"
      using False b by (intro byte_of_nat_eq_0) simp
    have "runSlot t (Suc k) (edgeStart t s) = atPhase t 1 (of_nat (unat ?L0 + unat ?L1 - Suc k)) s"
      unfolding step d z using Suc.prems by simp
    then show ?thesis using False by simp
  qed
qed

lemma byte_eq_of_nat: "unat (x :: byte) = n \<Longrightarrow> x = of_nat n"
  by auto

lemma setPhase_atPhase:
  assumes per: "0 < periodOf s t"
  shows "setPhase t phase s =
           Some (atPhase t (if unat phase mod periodOf s t < unat (get2 (edgLen s) t 0) then 0 else 1)
             (of_nat (if unat phase mod periodOf s t < unat (get2 (edgLen s) t 0)
                      then unat (get2 (edgLen s) t 0) - unat phase mod periodOf s t
                      else periodOf s t - unat phase mod periodOf s t)) s)"
proof -
  let ?L0 = "get2 (edgLen s) t 0" and ?L1 = "get2 (edgLen s) t 1"
  let ?period = "ucast ?L0 + ucast ?L1 :: word16"
  let ?k = "unat phase mod periodOf s t"
  have up: "unat ?period = periodOf s t" by (simp add: unat_edge_sum periodOf_def)
  then have nz: "?period \<noteq> 0" using per by (metis less_numeral_extra(3) unat_0)
  have np: "normPhase phase ?period = Some (phase mod ?period)" by (rule normPhase_Some [OF nz])
  have uk: "unat (phase mod ?period) = ?k" by (simp only: unat_mod up)
  have klt: "?k < periodOf s t" using per by simp
  have lt: "(phase mod ?period < ucast ?L0) = (?k < unat ?L0)"
    by (simp only: word_less_nat_alt uk unat_ucast_up)
  have b: "unat ?L0 \<le> 255" "unat ?L1 \<le> 255" by (rule unat_byte_le)+
  have d0: "(ucast (ucast ?L0 - phase mod ?period) :: byte) = of_nat (unat ?L0 - ?k)" if "?k < unat ?L0"
  proof (rule byte_eq_of_nat)
    have "phase mod ?period \<le> ucast ?L0"
      using that by (simp only: word_le_nat_alt uk unat_ucast_up)
    then have "unat (ucast ?L0 - phase mod ?period :: word16) = unat ?L0 - ?k"
      by (simp only: unat_sub uk unat_ucast_up)
    moreover have "unat ?L0 - ?k < 256" using b by simp
    ultimately show "unat (ucast (ucast ?L0 - phase mod ?period) :: byte) = unat ?L0 - ?k"
      by (simp only: unat_ucast_down mod_less)
  qed
  have d1: "(ucast (?period - phase mod ?period) :: byte) = of_nat (periodOf s t - ?k)" if "\<not> ?k < unat ?L0"
  proof (rule byte_eq_of_nat)
    have "phase mod ?period \<le> ?period"
      using klt by (simp only: word_le_nat_alt uk up)
    then have "unat (?period - phase mod ?period) = periodOf s t - ?k"
      by (simp only: unat_sub uk up)
    moreover have "periodOf s t - ?k < 256" using that b by (simp add: periodOf_def)
    ultimately show "unat (ucast (?period - phase mod ?period) :: byte) = periodOf s t - ?k"
      by (simp only: unat_ucast_down mod_less)
  qed
  show ?thesis
  proof (cases "?k < unat ?L0")
    case True
    then show ?thesis
      unfolding setPhase_def Let_def np using lt d0 by (simp add: atPhase_def)
  next
    case False
    then show ?thesis
      unfolding setPhase_def Let_def np using lt d1 by (simp add: atPhase_def)
  qed
qed

lemma setPhase_silent: "periodOf s t = 0 \<Longrightarrow> setPhase t phase s = None"
proof -
  assume "periodOf s t = 0"
  then have "unat (ucast (get2 (edgLen s) t 0) + ucast (get2 (edgLen s) t 1) :: word16) = 0"
    by (simp add: unat_edge_sum periodOf_def)
  then have "(ucast (get2 (edgLen s) t 0) + ucast (get2 (edgLen s) t 1) :: word16) = 0"
    by (simp only: unat_eq_0)
  then show ?thesis by (simp add: setPhase_def normPhase_None)
qed

text \<open>
  C10. For a slot \<open>t\<close> whose period \<open>edgLen[t][0] + edgLen[t][1]\<close> is positive,
  \<open>setPhase(t, phase)\<close> returns for every phase, and it leaves the section as it is
  after \<open>phase mod period\<close> samples of slot \<open>t\<close> counted from the start of its cycle.
  For a slot whose period is zero the loop \<open>while ( phase >= period ) phase -= period\<close>
  never ends, whatever the phase, and \<open>setPhase\<close> does not return.
\<close>

theorem setPhase_terminates_iff_period:
  assumes "shaped s" "t < MAX_OSC"
  shows "(0 < periodOf s t \<longrightarrow>
           setPhase t phase s = Some (runSlot t (unat phase mod periodOf s t) (edgeStart t s)))
       \<and> (periodOf s t = 0 \<longrightarrow> setPhase t phase s = None)
       \<and> (periodOf s t = 0 \<longrightarrow> normPhase phase 0 = None)"
proof (intro conjI impI)
  assume per: "0 < periodOf s t"
  then have "unat phase mod periodOf s t < unat (get2 (edgLen s) t 0) + unat (get2 (edgLen s) t 1)"
    by (simp add: periodOf_def)
  then show "setPhase t phase s = Some (runSlot t (unat phase mod periodOf s t) (edgeStart t s))"
    by (simp add: runSlot_edgeStart [OF assms] setPhase_atPhase [OF per] periodOf_def)
next
  assume "periodOf s t = 0"
  then show "setPhase t phase s = None" by (rule setPhase_silent)
next
  show "normPhase phase 0 = None" by (rule normPhase_None)
qed

theorem setPhase_terminates_iff_period_witness:
  "shaped (setNote 0 0 (reset blank)) \<and> (0::nat) < MAX_OSC
   \<and> periodOf (setNote 0 0 (reset blank)) 0 = 360
   \<and> setPhase 0 400 (setNote 0 0 (reset blank))
       = Some (runSlot 0 40 (edgeStart 0 (setNote 0 0 (reset blank))))
   \<and> edgIdx (runSlot 0 40 (edgeStart 0 (setNote 0 0 (reset blank)))) ! 0 = 0
   \<and> edgeDC (runSlot 0 40 (edgeStart 0 (setNote 0 0 (reset blank)))) ! 0 = 140
   \<and> shaped (reset blank) \<and> periodOf (reset blank) 0 = 0
   \<and> setPhase 0 400 (reset blank) = None"
proof -
  let ?s = "setNote 0 0 (reset blank)"
  let ?r = "\<lparr>numOsc = 1, curOsc = 0, ampOsc = 127, edgIdx = [0, 0, 0, 0],
     edgeDC = [140, 0, 0, 0], edgLen = [[180, 180], [0, 0], [0, 0], [0, 0]],
     edgVal = [[127, 129], [0, 127], [0, 127], [0, 127]],
     note' = [0, 255, 255, 255], pW = 128, freeze = False\<rparr>"
  have a: "shaped ?s" by code_simp
  have b: "(0::nat) < MAX_OSC" by (simp add: MAX_OSC_def)
  have p: "periodOf ?s 0 = 360" by code_simp
  have m: "unat (400 :: word16) mod 360 = 40" by simp
  have e: "setPhase 0 400 ?s = Some ?r" by code_simp
  have a': "shaped (reset blank)" by code_simp
  have p': "periodOf (reset blank) 0 = 0" by code_simp
  have t: "setPhase 0 400 ?s = Some (runSlot 0 40 (edgeStart 0 ?s))"
    using setPhase_terminates_iff_period [OF a b, of 400] p m by simp
  then have "runSlot 0 40 (edgeStart 0 ?s) = ?r" using e by simp
  then have r: "edgIdx (runSlot 0 40 (edgeStart 0 ?s)) ! 0 = 0"
    "edgeDC (runSlot 0 40 (edgeStart 0 ?s)) ! 0 = 140" by simp_all
  have n: "setPhase 0 400 (reset blank) = None"
    using setPhase_terminates_iff_period [OF a' b, of 400] p' by simp
  show ?thesis using a b p t r a' p' n by (intro conjI)
qed

end
